theory Spec2Isabelle
  imports Main "HOL-Library.Sublist"
begin

section \<open>The parsed document tree\<close>

text \<open>
  A BeautifulSoup tree: a \<open>NavigableString\<close> carries text, a \<open>Tag\<close> carries its name, its
  attributes (the items of its \<open>attrs\<close> dictionary) and its contents. Comments and other
  strings that \<open>get_text\<close> leaves out are not part of the model. An element of a tree is addressed by
  the list of child indices leading to it from the root; the root is the
  \<open>BeautifulSoup\<close> object itself, a tag named \<open>[document]\<close>.
\<close>

datatype node = NavigableString string | Tag string "(string \<times> string) list" "node list"

type_synonym path = "nat list"

datatype error = AttributeError | TypeError | KeyError | RequestException

type_synonym web = "string \<Rightarrow> node list option"

definition BeautifulSoup :: "node list \<Rightarrow> node" where
  "BeautifulSoup contents = Tag ''[document]'' [] contents"

primrec get_text :: "node \<Rightarrow> string" and get_text_list :: "node list \<Rightarrow> string" where
  "get_text (NavigableString s) = s"
| "get_text (Tag n a cs) = get_text_list cs"
| "get_text_list [] = []"
| "get_text_list (c # cs) = get_text c @ get_text_list cs"

text \<open>All elements of a tree in document order (the order of \<open>next_element\<close>).\<close>

primrec paths :: "node \<Rightarrow> path list" and paths_list :: "nat \<Rightarrow> node list \<Rightarrow> path list" where
  "paths (NavigableString s) = [[]]"
| "paths (Tag n a cs) = [] # paths_list 0 cs"
| "paths_list i [] = []"
| "paths_list i (c # cs) = map ((#) i) (paths c) @ paths_list (Suc i) cs"

fun subtree :: "node \<Rightarrow> path \<Rightarrow> node option" where
  "subtree t [] = Some t"
| "subtree (NavigableString s) (i # p) = None"
| "subtree (Tag n a cs) (i # p) = (if i < length cs then subtree (cs ! i) p else None)"

text \<open>\<open>.name\<close>: the tag name; \<open>None\<close> on a string.\<close>

fun name :: "node \<Rightarrow> string option" where
  "name (NavigableString s) = None"
| "name (Tag n a cs) = Some n"

fun attrs :: "node \<Rightarrow> (string \<times> string) list" where
  "attrs (NavigableString s) = []"
| "attrs (Tag n a cs) = a"

text \<open>Search criteria of \<open>find\<close>, \<open>find_all\<close>, \<open>find_next\<close>, ...: a tag name, possibly with
  the value of one attribute.\<close>

definition named :: "string \<Rightarrow> node \<Rightarrow> bool" where
  "named n t = (name t = Some n)"

definition named_with :: "string \<Rightarrow> string \<Rightarrow> string \<Rightarrow> node \<Rightarrow> bool" where
  "named_with n k v t = (name t = Some n \<and> map_of (attrs t) k = Some v)"

definition holds :: "node \<Rightarrow> (node \<Rightarrow> bool) \<Rightarrow> path \<Rightarrow> bool" where
  "holds soup P q = (case subtree soup q of None \<Rightarrow> False | Some t \<Rightarrow> P t)"

definition name_at :: "node \<Rightarrow> path \<Rightarrow> string option" where
  "name_at soup q = (case subtree soup q of None \<Rightarrow> None | Some t \<Rightarrow> name t)"

definition text_at :: "node \<Rightarrow> path \<Rightarrow> string" where
  "text_at soup q = (case subtree soup q of None \<Rightarrow> [] | Some t \<Rightarrow> get_text t)"

definition descendants :: "node \<Rightarrow> path \<Rightarrow> path list" where
  "descendants soup p =
     (case subtree soup p of None \<Rightarrow> [] | Some t \<Rightarrow> map ((@) p) (tl (paths t)))"

definition find_all :: "node \<Rightarrow> path \<Rightarrow> (node \<Rightarrow> bool) \<Rightarrow> path list" where
  "find_all soup p P = filter (holds soup P) (descendants soup p)"

definition find_bs :: "node \<Rightarrow> path \<Rightarrow> (node \<Rightarrow> bool) \<Rightarrow> path option" where
  "find_bs soup p P = (case find_all soup p P of [] \<Rightarrow> None | q # qs \<Rightarrow> Some q)"

text \<open>The elements after \<open>p\<close> in document order. The \<open>BeautifulSoup\<close> object itself is never
  linked to its first child: its \<open>next_element\<close> is \<open>None\<close>, so that a search forward from
  it finds nothing.\<close>

definition next_elements :: "node \<Rightarrow> path \<Rightarrow> path list" where
  "next_elements soup p =
     (if p = [] then [] else tl (dropWhile (\<lambda>q. q \<noteq> p) (paths soup)))"

definition previous_elements :: "node \<Rightarrow> path \<Rightarrow> path list" where
  "previous_elements soup p = rev (takeWhile (\<lambda>q. q \<noteq> p) (paths soup))"

definition find_next :: "node \<Rightarrow> path \<Rightarrow> (node \<Rightarrow> bool) \<Rightarrow> path option" where
  "find_next soup p P = List.find (holds soup P) (next_elements soup p)"

definition find_previous :: "node \<Rightarrow> path \<Rightarrow> (node \<Rightarrow> bool) \<Rightarrow> path option" where
  "find_previous soup p P = List.find (holds soup P) (previous_elements soup p)"

definition parent :: "path \<Rightarrow> path option" where
  "parent p = (if p = [] then None else Some (butlast p))"

definition previous_sibling :: "path \<Rightarrow> path option" where
  "previous_sibling p =
     (if p = [] \<or> last p = 0 then None else Some (butlast p @ [last p - 1]))"

definition previous_siblings :: "path \<Rightarrow> path list" where
  "previous_siblings p =
     (if p = [] then [] else map (\<lambda>i. butlast p @ [i]) (rev [0 ..< last p]))"

definition find_previous_sibling :: "node \<Rightarrow> path \<Rightarrow> (node \<Rightarrow> bool) \<Rightarrow> path option" where
  "find_previous_sibling soup p P = List.find (holds soup P) (previous_siblings p)"

text \<open>\<open>.string\<close>: the single string below a chain of only children, if there is one.\<close>

fun string_of :: "node \<Rightarrow> string option" where
  "string_of (NavigableString s) = Some s"
| "string_of (Tag n a [c]) = string_of c"
| "string_of (Tag n a cs) = None"

text \<open>\<open>tag.string = s\<close>: the contents of the tag at the path are cleared and replaced by
  the one string.\<close>

fun set_string :: "node \<Rightarrow> path \<Rightarrow> string \<Rightarrow> node" where
  "set_string (Tag n a cs) [] s = Tag n a [NavigableString s]"
| "set_string (NavigableString t) [] s = NavigableString t"
| "set_string (NavigableString t) (i # p) s = NavigableString t"
| "set_string (Tag n a cs) (i # p) s =
     (if i < length cs then Tag n a (cs[i := set_string (cs ! i) p s]) else Tag n a cs)"

section \<open>Strings\<close>

text \<open>
  \<open>str.lower\<close> belongs to the language, not to the program, and maps the letters of every
  alphabet: it is a parameter of the functions that call it. Strings are sequences of
  bytes, the encoding of the text; a stretch of bytes occurs in a text exactly when the
  characters it encodes occur there, so that \<open>in\<close> and the comparisons of the program can
  be taken on the bytes.
\<close>

type_synonym lowering = "string \<Rightarrow> string"

text \<open>\<open>sub in s\<close> on strings.\<close>

fun contains :: "string \<Rightarrow> string \<Rightarrow> bool" where
  "contains sub [] = (sub = [])"
| "contains sub (c # cs) = (prefix sub (c # cs) \<or> contains sub cs)"

definition digit :: "char \<Rightarrow> bool" where
  "digit c = (c \<in> set ''0123456789'')"

text \<open>\<open>re.findall('\[([0-9]{1,2})\]', line)\<close>: the digits of every non-overlapping match,
  scanning from the left.\<close>

fun findall :: "string \<Rightarrow> string list" where
  "findall (a # b # c # d # rest) =
     (if a = CHR ''['' \<and> digit b \<and> digit c \<and> d = CHR '']'' then [b, c] # findall rest
      else if a = CHR ''['' \<and> digit b \<and> c = CHR '']'' then [b] # findall (d # rest)
      else findall (b # c # d # rest))"
| "findall [a, b, c] = (if a = CHR ''['' \<and> digit b \<and> c = CHR '']'' then [[b]] else [])"
| "findall s = []"

section \<open>The Section Classifier\<close>

definition relevant_section :: "lowering \<Rightarrow> node \<Rightarrow> path \<Rightarrow> error + bool option" where
  "relevant_section lower soup tag =
     (if name_at soup tag = Some ''p'' \<or> name_at soup tag = Some ''table'' then
        (case find_previous soup tag (named ''h2'') of
           None \<Rightarrow> Inr (Some True)
         | Some previous_heading \<Rightarrow>
             (case find_bs soup previous_heading (named ''span'') of
                None \<Rightarrow> Inl AttributeError
              | Some span \<Rightarrow>
                  if contains ''economy'' (lower (text_at soup span)) then Inr (Some True)
                  else Inr (Some False)))
      else Inr None)"

text \<open>\<open>soup.find_all(relevant_section)\<close>: the function is called on every tag of the document,
  in document order; a tag is kept when the result is true.\<close>

fun find_all_fn :: "lowering \<Rightarrow> node \<Rightarrow> path list \<Rightarrow> error + path list" where
  "find_all_fn lower soup [] = Inr []"
| "find_all_fn lower soup (q # qs) =
     (case relevant_section lower soup q of
        Inl e \<Rightarrow> Inl e
      | Inr r \<Rightarrow>
          (case find_all_fn lower soup qs of
             Inl e \<Rightarrow> Inl e
           | Inr rs \<Rightarrow> Inr (if r = Some True then q # rs else rs)))"

definition tags :: "node \<Rightarrow> path list" where
  "tags soup = filter (\<lambda>q. name_at soup q \<noteq> None) (descendants soup [])"

section \<open>The Corroboration Checker\<close>

definition base_url :: string where
  "base_url = ''https://en.wikipedia.org''"

definition uni_towns_link :: string where
  "uni_towns_link = ''/wiki/Category:University_towns_in_the_United_States''"

text \<open>The inner loop: the number of relevant paragraphs whose lower-cased text contains
  the university.\<close>

fun ref_count :: "lowering \<Rightarrow> string \<Rightarrow> string list \<Rightarrow> nat \<Rightarrow> nat" where
  "ref_count lower uni [] c = c"
| "ref_count lower uni (para # paras) c =
     ref_count lower uni paras (if contains uni (lower para) then c + 1 else c)"

fun uni_loop :: "lowering \<Rightarrow> string list \<Rightarrow> string list \<Rightarrow> bool" where
  "uni_loop lower [] paras = False"
| "uni_loop lower (uni # unis) paras =
     (if ref_count lower uni paras 0 \<ge> 2 then True else uni_loop lower unis paras)"

text \<open>Lines 73 to 75: the lower-cased texts of the links of the candidate after the first,
  without the placeholders.\<close>

definition universities :: "lowering \<Rightarrow> node \<Rightarrow> path \<Rightarrow> string list" where
  "universities lower soup tag =
     map lower (filter (\<lambda>t. t \<noteq> ''citation needed'' \<and> \<not> contains ''['' t)
       (map (text_at soup) (drop 1 (find_all soup tag (named ''a'')))))"

text \<open>Lines 88 to 97: the harder check, run when the article is not in the category.\<close>

definition slow_path :: "lowering \<Rightarrow> node \<Rightarrow> string list \<Rightarrow> error + bool" where
  "slow_path lower soup unis =
     (case find_all_fn lower soup (tags soup) of
        Inl e \<Rightarrow> Inl e
      | Inr relevant_paras \<Rightarrow> Inr (uni_loop lower unis (map (text_at soup) relevant_paras)))"

definition check_college_town_status ::
  "lowering \<Rightarrow> web \<Rightarrow> node \<Rightarrow> path \<Rightarrow> error + bool" where
  "check_college_town_status lower www doc tag =
     (case find_next doc tag (named ''a'') of
        None \<Rightarrow> Inl TypeError
      | Some a \<Rightarrow>
          (case map_of (attrs (the (subtree doc a))) ''href'' of
             None \<Rightarrow> Inl KeyError
           | Some href \<Rightarrow>
               (case www (base_url @ href) of
                  None \<Rightarrow> Inl RequestException
                | Some contents \<Rightarrow>
                    (let soup = BeautifulSoup contents in
                     case find_bs soup [] (named_with ''div'' ''id'' ''catlinks'') of
                       None \<Rightarrow> Inl AttributeError
                     | Some category_links \<Rightarrow>
                         if find_all soup category_links
                              (named_with ''a'' ''href'' uni_towns_link) \<noteq> []
                         then Inr True
                         else slow_path lower soup (universities lower doc tag)))))"

section \<open>The Town Extractor\<close>

definition good_sources :: "string list" where
  "good_sources = [''7'', ''9'', ''13'', ''15'', ''16'', ''17'', ''22'', ''24'', ''28'', ''30'', ''34'',
     ''37'', ''38'', ''40'', ''41'', ''43'', ''50'', ''54'']"

definition big_cities :: "string list" where
  "big_cities = [''Los Angeles'', ''Sacramento'', ''Atlanta'', ''Chicago'', ''Detroit'',
     ''Cleveland'', ''Columbus'', ''Johnstown'', ''Lower Merion Township'', ''Philadelphia'',
     ''Pittsburgh'', ''State College'', ''Providence'']"

definition newline :: string where
  "newline = [CHR 0x0A]"

text \<open>
  The state of the loop over the items of one list. The tree is updated in place by the
  neighbourhood rewrite. \<open>detached\<close> records, for every link whose contents were replaced,
  the subtree that was cut out of the document: an item of the list that was inside it
  is still visited, as an element without a place in the tree. \<open>towns\<close> is the result
  list, \<open>checked\<close> the items that were passed to \<open>check_college_town_status\<close>.
\<close>

record state =
  soup :: node
  detached :: "(path \<times> node) list"
  towns :: "string list"
  checked :: "path list"

text \<open>The item as it was cut out of the tree, when an earlier rewrite replaced the
  contents of a link above it.\<close>

fun cut_off :: "(path \<times> node) list \<Rightarrow> path \<Rightarrow> node option" where
  "cut_off [] item = None"
| "cut_off ((a, old) # ds) item =
     (if strict_prefix a item then subtree old (drop (length a) item) else cut_off ds item)"

text \<open>Lines 137 to 141: the check whether the item is a neighbourhood of a larger city,
  and the rewrite of its link. The result is the tree and what the rewrite cut out of it.\<close>

definition rewrite_neighborhood :: "node \<Rightarrow> path \<Rightarrow> error + node \<times> (path \<times> node) list" where
  "rewrite_neighborhood doc item =
     (case parent item of
        None \<Rightarrow> Inl AttributeError
      | Some ul \<Rightarrow>
          (case previous_sibling ul of
             None \<Rightarrow> Inl AttributeError
           | Some s1 \<Rightarrow>
               (case previous_sibling s1 of
                  None \<Rightarrow> Inl AttributeError
                | Some s2 \<Rightarrow>
                    if name_at doc s2 \<noteq> Some ''h3'' then
                      (case parent ul of
                         None \<Rightarrow> Inl AttributeError
                       | Some outer \<Rightarrow>
                           (case find_next doc outer (named ''a'') of
                              None \<Rightarrow> Inl AttributeError
                            | Some city_link \<Rightarrow>
                                (let city = text_at doc city_link in
                                 if city \<in> set big_cities then
                                   (case find_next doc item (named ''a'') of
                                      None \<Rightarrow> Inl AttributeError
                                    | Some a \<Rightarrow>
                                        (case string_of (the (subtree doc a)) of
                                           None \<Rightarrow> Inl TypeError
                                         | Some s \<Rightarrow>
                                             Inr (set_string doc a (s @ '', '' @ city),
                                                  [(a, the (subtree doc a))])))
                                 else Inr (doc, []))))
                    else Inr (doc, []))))"

text \<open>The body of the loop of \<open>get_towns_from_state\<close>.\<close>

definition town_item :: "lowering \<Rightarrow> web \<Rightarrow> state \<Rightarrow> path \<Rightarrow> error + state" where
  "town_item lower www st item =
     (case cut_off (detached st) item of
        Some sub \<Rightarrow>
          if find_all sub [] (named ''ul'') \<noteq> [] then Inr st else Inl AttributeError
      | None \<Rightarrow>
          if find_all (soup st) item (named ''ul'') \<noteq> [] then Inr st
          else
            (case rewrite_neighborhood (soup st) item of
               Inl e \<Rightarrow> Inl e
             | Inr (doc, removed) \<Rightarrow>
                 (let line = text_at doc item;
                      sources = findall line;
                      st' = st\<lparr>soup := doc, detached := detached st @ removed\<rparr>
                  in if sources \<noteq> [] \<and> length (filter (\<lambda>x. x \<in> set good_sources) sources) \<noteq> 0
                     then Inr (st'\<lparr>towns := towns st' @ [line @ newline]\<rparr>)
                     else
                       (case check_college_town_status lower www doc item of
                          Inl e \<Rightarrow> Inl e
                        | Inr status \<Rightarrow>
                            Inr (st'\<lparr>checked := checked st' @ [item],
                                     towns := (if status then towns st' @ [line @ newline]
                                               else towns st')\<rparr>)))))"

fun town_loop :: "lowering \<Rightarrow> web \<Rightarrow> state \<Rightarrow> path list \<Rightarrow> error + state" where
  "town_loop lower www st [] = Inr st"
| "town_loop lower www st (item # town_list) =
     (case town_item lower www st item of
        Inl e \<Rightarrow> Inl e
      | Inr st' \<Rightarrow> town_loop lower www st' town_list)"

definition get_towns_from_state ::
  "lowering \<Rightarrow> web \<Rightarrow> node \<Rightarrow> path \<Rightarrow> error + state" where
  "get_towns_from_state lower www doc tag =
     (case find_next doc tag (named ''ul'') of
        None \<Rightarrow> Inl AttributeError
      | Some ul \<Rightarrow>
          town_loop lower www \<lparr>soup = doc, detached = [], towns = [], checked = []\<rparr>
            (find_all doc ul (named ''li'')))"

section \<open>The Pipeline Driver\<close>

text \<open>What a run can see and change outside itself: the documents the Document Source
  serves, which the run only reads, and the console, to which it prints its progress.\<close>

record world =
  internet :: web
  stdout :: "string list"

definition url :: string where
  "url = ''https://en.wikipedia.org/wiki/List_of_college_towns#College_towns_in_the_United_States''"

text \<open>The line printed for a state: \<open>'Checking college towns in '+tag.text.split('[')[0]+'...'\<close>.\<close>

definition progress :: "string \<Rightarrow> string" where
  "progress label =
     ''Checking college towns in '' @ takeWhile (\<lambda>c. c \<noteq> CHR ''['') label @ ''...''"

text \<open>The loop over the states. It always ends, since every round moves to a later
  heading of the document (lemma \<open>state_loop_total\<close>).\<close>

partial_function (option) state_loop ::
  "lowering \<Rightarrow> world \<Rightarrow> node \<Rightarrow> path option \<Rightarrow> string list \<Rightarrow>
     ((error + string list) \<times> world) option" where
  "state_loop lower w doc tag data =
     (case tag of
        None \<Rightarrow> Some (Inl AttributeError, w)
      | Some h3 \<Rightarrow>
          (case find_previous_sibling doc h3 (named ''h2'') of
             None \<Rightarrow> Some (Inl AttributeError, w)
           | Some h2 \<Rightarrow>
               (case find_bs doc h2 (named ''span'') of
                  None \<Rightarrow> Some (Inl AttributeError, w)
                | Some span \<Rightarrow>
                    if text_at doc span = ''College towns in the United States'' then
                      (let w' = w\<lparr>stdout := stdout w @ [progress (text_at doc h3)]\<rparr>;
                           data' = data @ [text_at doc h3 @ newline]
                       in case get_towns_from_state lower (internet w) doc h3 of
                            Inl e \<Rightarrow> Some (Inl e, w')
                          | Inr st \<Rightarrow>
                              state_loop lower w' (soup st)
                                (find_next (soup st) h3 (named ''h3''))
                                (data' @ towns st))
                    else Some (Inr data, w))))"

definition scrape_university_towns ::
  "lowering \<Rightarrow> world \<Rightarrow> ((error + string list) \<times> world) option" where
  "scrape_university_towns lower w =
     (case internet w url of
        None \<Rightarrow> Some (Inl RequestException, w)
      | Some contents \<Rightarrow>
          (let doc = BeautifulSoup contents in
           case find_bs doc [] (named_with ''span'' ''id'' ''College_towns_in_the_United_States'') of
             None \<Rightarrow> Some (Inl AttributeError, w)
           | Some tag \<Rightarrow> state_loop lower w doc (find_next doc tag (named ''h3'')) []))"

section \<open>Notions of the specification\<close>

text \<open>A node is in scope when the Section Classifier returns true on it.\<close>

definition in_scope :: "lowering \<Rightarrow> node \<Rightarrow> path \<Rightarrow> bool" where
  "in_scope lower page q = (relevant_section lower page q = Inr (Some True))"

text \<open>The mentions of a (lower-cased) university name on a page: the number of in-scope
  nodes whose text contains the name, compared without case.\<close>

definition mentions :: "lowering \<Rightarrow> node \<Rightarrow> string \<Rightarrow> nat" where
  "mentions lower page uni =
     length (filter (\<lambda>q. in_scope lower page q \<and> contains uni (lower (text_at page q)))
       (tags page))"

text \<open>The line holds the citation marker \<open>[s]\<close>: an opening bracket, the one or two
  digits \<open>s\<close>, a closing bracket.\<close>

definition marker_in :: "string \<Rightarrow> string \<Rightarrow> bool" where
  "marker_in line s =
     (\<exists>pre post. line = pre @ ''['' @ s @ '']'' @ post \<and>
        s \<noteq> [] \<and> length s \<le> 2 \<and> (\<forall>c\<in>set s. digit c))"

text \<open>No element named \<open>nm\<close> comes before \<open>q\<close> in the document.\<close>

definition no_preceding :: "node \<Rightarrow> path \<Rightarrow> string \<Rightarrow> bool" where
  "no_preceding page q nm = (\<forall>h\<in>set (previous_elements page q). name_at page h \<noteq> Some nm)"

text \<open>\<open>h\<close> is the nearest element named \<open>nm\<close> before \<open>q\<close>: walking back from \<open>q\<close>, it is
  the first one with that name.\<close>

definition nearest_preceding :: "node \<Rightarrow> path \<Rightarrow> string \<Rightarrow> path \<Rightarrow> bool" where
  "nearest_preceding page q nm h =
     (\<exists>i<length (previous_elements page q).
        previous_elements page q ! i = h \<and> name_at page h = Some nm \<and>
        (\<forall>j<i. name_at page (previous_elements page q ! j) \<noteq> Some nm))"

section \<open>Example documents\<close>

text \<open>What \<open>str.lower\<close> does to a text of ASCII characters, as the examples are.\<close>

definition lower_char :: "char \<Rightarrow> char" where
  "lower_char c =
     (case map_of (zip ''ABCDEFGHIJKLMNOPQRSTUVWXYZ'' ''abcdefghijklmnopqrstuvwxyz'') c of
        None \<Rightarrow> c | Some d \<Rightarrow> d)"

definition ascii_lower :: lowering where
  "ascii_lower s = map lower_char s"

text \<open>A candidate line \<open>T (U Uni)\<close> whose first link leads to the article \<open>/wiki/T\<close>.\<close>

definition candidate_doc :: node where
  "candidate_doc = BeautifulSoup
     [Tag ''li'' [] [Tag ''a'' [(''href'', ''/wiki/T'')] [NavigableString ''T''],
        NavigableString '' ('',
        Tag ''a'' [(''href'', ''/wiki/U'')] [NavigableString ''U Uni''],
        NavigableString '')'']]"

definition serve :: "node list \<Rightarrow> web" where
  "serve page u = (if u = ''https://en.wikipedia.org/wiki/T'' then Some page else None)"

definition unreachable :: web where
  "unreachable u = None"

text \<open>An article that names the university in two paragraphs of its lead section.\<close>

definition page_two :: "node list" where
  "page_two = [Tag ''p'' [] [NavigableString ''U Uni is here''],
     Tag ''p'' [] [NavigableString ''the u uni''],
     Tag ''div'' [(''id'', ''catlinks'')] []]"

text \<open>The same article with a section whose heading has no label.\<close>

definition page_broken :: "node list" where
  "page_broken = [Tag ''p'' [] [NavigableString ''U Uni is here''],
     Tag ''p'' [] [NavigableString ''the u uni''],
     Tag ''h2'' [] [NavigableString ''Notes''],
     Tag ''p'' [] [NavigableString ''x''],
     Tag ''div'' [(''id'', ''catlinks'')] []]"

text \<open>An article in the category, with a heading that has no label.\<close>

definition page_cat :: "node list" where
  "page_cat = [Tag ''h2'' [] [NavigableString ''Notes''],
     Tag ''p'' [] [NavigableString ''x''],
     Tag ''div'' [(''id'', ''catlinks'')]
       [Tag ''a'' [(''href'', ''/wiki/Category:University_towns_in_the_United_States'')]
          [NavigableString ''University towns'']]]"

text \<open>An article that names the university twice in one lead paragraph and once more
  under a history heading.\<close>

definition page_once :: "node list" where
  "page_once = [Tag ''p'' [] [NavigableString ''U Uni, u uni''],
     Tag ''h2'' [] [Tag ''span'' [] [NavigableString ''History'']],
     Tag ''p'' [] [NavigableString ''U Uni''],
     Tag ''div'' [(''id'', ''catlinks'')] []]"

text \<open>An article with a history and an economy section.\<close>

definition page_sections :: node where
  "page_sections = BeautifulSoup
     [Tag ''h2'' [] [Tag ''span'' [] [NavigableString ''History'']],
      Tag ''p'' [] [NavigableString ''a''],
      Tag ''h2'' [] [Tag ''span'' [] [NavigableString ''Local Economy'']],
      Tag ''p'' [] [NavigableString ''b''],
      Tag ''div'' [] []]"

text \<open>A list of candidates of one state: the first carries a trusted citation, the
  second none.\<close>

definition ohio_doc :: node where
  "ohio_doc = BeautifulSoup
     [Tag ''h3'' [] [Tag ''span'' [] [NavigableString ''Ohio'']],
      NavigableString newline,
      Tag ''ul'' []
        [Tag ''li'' [] [Tag ''a'' [(''href'', ''/wiki/T'')] [NavigableString ''T''],
           NavigableString '' (U Uni)[7]''],
         Tag ''li'' [] [Tag ''a'' [(''href'', ''/wiki/N'')] [NavigableString ''N''],
           NavigableString '' (W Uni)'']]]"

text \<open>A list that follows its heading with nothing in between.\<close>

definition adjacent_doc :: node where
  "adjacent_doc = BeautifulSoup
     [Tag ''h3'' [] [Tag ''span'' [] [NavigableString ''Ohio'']],
      Tag ''ul'' []
        [Tag ''li'' [] [Tag ''a'' [(''href'', ''/wiki/T'')] [NavigableString ''T''],
           NavigableString '' (U Uni)[7]'']]]"

text \<open>A big city with two neighbourhoods, the first of which has no link of its own.\<close>

definition chicago_doc :: node where
  "chicago_doc = BeautifulSoup
     [Tag ''h3'' [] [Tag ''span'' [] [NavigableString ''Illinois'']],
      NavigableString newline,
      Tag ''ul'' []
        [Tag ''li'' [] [Tag ''a'' [(''href'', ''/wiki/Chicago'')] [NavigableString ''Chicago''],
           NavigableString newline,
           Tag ''ul'' []
             [Tag ''li'' [] [NavigableString ''Hyde Park (U Uni)[9]''],
              Tag ''li'' [] [Tag ''a'' [(''href'', ''/wiki/R'')] [NavigableString ''Rogers Park''],
                NavigableString '' (V Uni)[9]'']]]]]"

text \<open>A list with two cities that are subdivided into neighbourhoods.\<close>

definition nbhd_doc :: node where
  "nbhd_doc = BeautifulSoup
     [Tag ''h3'' [] [Tag ''span'' [] [NavigableString ''Ohio'']],
      NavigableString newline,
      Tag ''ul'' []
        [Tag ''li'' [] [Tag ''a'' [(''href'', ''/wiki/C'')] [NavigableString ''Columbus''],
           NavigableString newline,
           Tag ''ul'' []
             [Tag ''li'' [] [Tag ''a'' [(''href'', ''/wiki/D'')] [NavigableString ''District''],
                NavigableString '' (V Uni)[9]'']]],
         Tag ''li'' [] [Tag ''a'' [(''href'', ''/wiki/S'')] [NavigableString ''Smallville''],
           NavigableString newline,
           Tag ''ul'' []
             [Tag ''li'' [] [Tag ''a'' [(''href'', ''/wiki/E'')] [NavigableString ''Eastside''],
                NavigableString '' (X Uni)[9]'']]]]]"

text \<open>A candidate with a numbered list inside.\<close>

definition ol_doc :: node where
  "ol_doc = BeautifulSoup
     [Tag ''h3'' [] [Tag ''span'' [] [NavigableString ''Ohio'']],
      NavigableString newline,
      Tag ''ul'' []
        [Tag ''li'' [] [Tag ''a'' [(''href'', ''/wiki/T'')] [NavigableString ''T''],
           NavigableString ''[7]'',
           Tag ''ol'' [] [Tag ''li'' [] [NavigableString ''Sub'']]]]]"

definition start :: "node \<Rightarrow> state" where
  "start doc = \<lparr>soup = doc, detached = [], towns = [], checked = []\<rparr>"

text \<open>The item sits in a list that does not directly follow an \<open>h3\<close> heading, and \<open>city\<close>
  is the text of the first link after the element that encloses that list: the test
  and the look-up of lines 137 and 139.\<close>

definition nested_under :: "node \<Rightarrow> path \<Rightarrow> string \<Rightarrow> bool" where
  "nested_under doc item city =
     (\<exists>ul s1 s2 outer city_link.
        parent item = Some ul \<and> previous_sibling ul = Some s1 \<and> previous_sibling s1 = Some s2 \<and>
        name_at doc s2 \<noteq> Some ''h3'' \<and> parent ul = Some outer \<and>
        find_next doc outer (named ''a'') = Some city_link \<and> text_at doc city_link = city)"

text \<open>The one change the neighbourhood rewrite makes to a tree: the contents of the first
  link after the item become the link's string followed by a comma and the city.\<close>

definition link_rewrite :: "node \<Rightarrow> path \<Rightarrow> node \<Rightarrow> bool" where
  "link_rewrite doc item doc' =
     (\<exists>city a s.
        nested_under doc item city \<and> city \<in> set big_cities \<and>
        find_next doc item (named ''a'') = Some a \<and>
        string_of (the (subtree doc a)) = Some s \<and>
        doc' = set_string doc a (s @ '', '' @ city))"

definition rewritten :: "node \<Rightarrow> node \<Rightarrow> bool" where
  "rewritten = rtranclp (\<lambda>doc doc'. \<exists>item. link_rewrite doc item doc')"

text \<open>\<open>nbhd_doc\<close> after the rewrite of the link of \<open>District\<close>.\<close>

definition nbhd_doc_rewritten :: node where
  "nbhd_doc_rewritten = BeautifulSoup
     [Tag ''h3'' [] [Tag ''span'' [] [NavigableString ''Ohio'']],
      NavigableString newline,
      Tag ''ul'' []
        [Tag ''li'' [] [Tag ''a'' [(''href'', ''/wiki/C'')] [NavigableString ''Columbus''],
           NavigableString newline,
           Tag ''ul'' []
             [Tag ''li'' [] [Tag ''a'' [(''href'', ''/wiki/D'')]
                  [NavigableString ''District, Columbus''],
                NavigableString '' (V Uni)[9]'']]],
         Tag ''li'' [] [Tag ''a'' [(''href'', ''/wiki/S'')] [NavigableString ''Smallville''],
           NavigableString newline,
           Tag ''ul'' []
             [Tag ''li'' [] [Tag ''a'' [(''href'', ''/wiki/E'')] [NavigableString ''Eastside''],
                NavigableString '' (X Uni)[9]'']]]]]"

text \<open>A list of college towns with one state and one candidate with a trusted citation,
  followed by another section, and a world whose Document Source serves it.\<close>

definition list_page :: "node list" where
  "list_page =
     [Tag ''h2'' []
        [Tag ''span'' [(''id'', ''College_towns_in_the_United_States'')]
           [NavigableString ''College towns in the United States'']],
      Tag ''h3'' [] [Tag ''span'' [] [NavigableString ''Ohio''],
        Tag ''span'' [] [NavigableString ''[edit]'']],
      NavigableString newline,
      Tag ''ul'' []
        [Tag ''li'' [] [Tag ''a'' [(''href'', ''/wiki/Athens'')] [NavigableString ''Athens''],
           NavigableString '' (Ohio University)[7]'']],
      Tag ''h2'' [] [Tag ''span'' [] [NavigableString ''See also'']],
      Tag ''h3'' [] [Tag ''span'' [] [NavigableString ''More'']]]"

definition list_world :: world where
  "list_world = \<lparr>internet = (\<lambda>u. if u = url then Some list_page else None), stdout = []\<rparr>"

text \<open>The paths that are left in a tree when the contents of the element at \<open>q\<close> are
  replaced by one string.\<close>

definition kept :: "path \<Rightarrow> path \<Rightarrow> bool" where
  "kept q p = (\<not> strict_prefix q p \<or> p = q @ [0])"

text \<open>The measure of the loop over the states: the elements of the document after the
  current heading.\<close>

definition remaining :: "node \<Rightarrow> path option \<Rightarrow> nat" where
  "remaining doc tag = (case tag of None \<Rightarrow> 0 | Some h \<Rightarrow> Suc (length (next_elements doc h)))"

section \<open>Lemmas about strings\<close>

lemma contains_sublist: "contains sub s = sublist sub s"
  by (induction s) (auto simp: sublist_Cons_right)

lemma sublist_map_iff: "sublist ys (map f xs) \<longleftrightarrow> (\<exists>zs. sublist zs xs \<and> map f zs = ys)"
proof
  assume "sublist ys (map f xs)"
  then obtain ps ss where "map f xs = ps @ ys @ ss"
    by (auto simp: sublist_def)
  then have "\<exists>us vs. xs = us @ vs \<and> ps = map f us \<and> ys @ ss = map f vs"
    by (simp only: map_eq_append_conv)
  then obtain us vs where 1: "xs = us @ vs" "map f vs = ys @ ss"
    by auto
  from 1(2) have "\<exists>zs ws. vs = zs @ ws \<and> ys = map f zs \<and> ss = map f ws"
    by (simp only: map_eq_append_conv)
  then obtain zs ws where "vs = zs @ ws" "map f zs = ys"
    by auto
  with 1(1) have "xs = us @ zs @ ws" "map f zs = ys"
    by simp_all
  then show "\<exists>zs. sublist zs xs \<and> map f zs = ys"
    by (auto simp: sublist_def)
next
  assume "\<exists>zs. sublist zs xs \<and> map f zs = ys"
  then obtain zs ps ss where "xs = ps @ zs @ ss" "map f zs = ys"
    by (auto simp: sublist_def)
  then have "map f xs = map f ps @ ys @ map f ss" by simp
  then show "sublist ys (map f xs)"
    unfolding sublist_def by blast
qed

text \<open>Containment without regard to case, on ASCII texts: some segment of the text is the
  name, up to the case of its letters.\<close>

lemma contains_lower:
  "contains (ascii_lower uni) (ascii_lower txt) \<longleftrightarrow>
     (\<exists>seg. sublist seg txt \<and> ascii_lower seg = ascii_lower uni)"
  by (simp add: contains_sublist ascii_lower_def sublist_map_iff)

section \<open>Lemmas about trees and searches\<close>

lemma subtree_append:
  "subtree t (p @ r) = (case subtree t p of None \<Rightarrow> None | Some u \<Rightarrow> subtree u r)"
  by (induction t p rule: subtree.induct) auto

lemma paths_list_set:
  "(\<And>c p. c \<in> set cs \<Longrightarrow> (p \<in> set (paths c)) = (subtree c p \<noteq> None)) \<Longrightarrow>
   set (paths_list i cs) = {q. \<exists>k p. q = (i + k) # p \<and> k < length cs \<and> subtree (cs ! k) p \<noteq> None}"
proof (induction cs arbitrary: i)
  case Nil
  then show ?case by simp
next
  case (Cons c cs)
  have IH: "set (paths_list (Suc i) cs) =
      {q. \<exists>k p. q = (Suc i + k) # p \<and> k < length cs \<and> subtree (cs ! k) p \<noteq> None}"
    using Cons by simp
  have hd: "set (paths c) = {p. subtree c p \<noteq> None}"
    using Cons.prems by auto
  show ?case
  proof (rule set_eqI)
    fix q
    show "q \<in> set (paths_list i (c # cs)) \<longleftrightarrow>
      q \<in> {q. \<exists>k p. q = (i + k) # p \<and> k < length (c # cs) \<and> subtree ((c # cs) ! k) p \<noteq> None}"
      (is "?L \<longleftrightarrow> ?R")
    proof
      assume ?L
      then consider (a) "q \<in> (#) i ` set (paths c)" | (b) "q \<in> set (paths_list (Suc i) cs)"
        by auto
      then show ?R
      proof cases
        case a
        then obtain p where "q = i # p" "subtree c p \<noteq> None" using hd by auto
        then have "q = (i + 0) # p \<and> 0 < length (c # cs) \<and> subtree ((c # cs) ! 0) p \<noteq> None"
          by simp
        then show ?thesis by blast
      next
        case b
        then obtain k p where "q = (Suc i + k) # p" "k < length cs" "subtree (cs ! k) p \<noteq> None"
          using IH by auto
        then have "q = (i + Suc k) # p \<and> Suc k < length (c # cs) \<and> subtree ((c # cs) ! Suc k) p \<noteq> None"
          by simp
        then show ?thesis by blast
      qed
    next
      assume ?R
      then obtain k p where kp: "q = (i + k) # p" "k < length (c # cs)" "subtree ((c # cs) ! k) p \<noteq> None"
        by auto
      show ?L
      proof (cases k)
        case 0
        with kp hd show ?thesis by auto
      next
        case (Suc k')
        with kp have "q = (Suc i + k') # p" "k' < length cs" "subtree (cs ! k') p \<noteq> None" by auto
        then have "q \<in> set (paths_list (Suc i) cs)" using IH by blast
        then show ?thesis by simp
      qed
    qed
  qed
qed

lemma paths_set: "(p \<in> set (paths t)) = (subtree t p \<noteq> None)"
proof (induction t arbitrary: p)
  case (NavigableString s)
  then show ?case by (cases p) auto
next
  case (Tag n a cs)
  have "set (paths_list 0 cs) = {q. \<exists>k p. q = (0 + k) # p \<and> k < length cs \<and> subtree (cs ! k) p \<noteq> None}"
    by (rule paths_list_set) (use Tag in auto)
  then show ?case by (cases p) auto
qed

lemma paths_hd: "paths t = [] # tl (paths t)"
  by (cases t) auto

lemma paths_list_nonempty: "[] \<notin> set (paths_list i cs)"
  by (induction cs arbitrary: i) auto

lemma tl_paths_set: "(r \<in> set (tl (paths t))) = (r \<noteq> [] \<and> subtree t r \<noteq> None)"
proof -
  have "[] \<notin> set (tl (paths t))"
    by (cases t) (auto simp: paths_list_nonempty)
  moreover have "set (paths t) = insert [] (set (tl (paths t)))"
    by (subst paths_hd) simp
  ultimately show ?thesis
    using paths_set[of r t] by auto
qed

lemma descendants_set:
  "(q \<in> set (descendants doc p)) = (strict_prefix p q \<and> subtree doc q \<noteq> None)"
proof (cases "subtree doc p")
  case None
  then show ?thesis
    by (auto simp: descendants_def strict_prefix_def prefix_def subtree_append)
next
  case (Some t)
  show ?thesis
  proof
    assume "q \<in> set (descendants doc p)"
    then obtain r where "q = p @ r" "r \<noteq> []" "subtree t r \<noteq> None"
      using Some by (auto simp: descendants_def tl_paths_set)
    then show "strict_prefix p q \<and> subtree doc q \<noteq> None"
      using Some by (auto simp: subtree_append strict_prefix_def)
  next
    assume a: "strict_prefix p q \<and> subtree doc q \<noteq> None"
    then obtain r where r: "q = p @ r" "r \<noteq> []"
      by (auto simp: strict_prefix_def prefix_def)
    with a Some have "subtree t r \<noteq> None" by (simp add: subtree_append)
    with r have "r \<in> set (tl (paths t))" by (simp add: tl_paths_set)
    then show "q \<in> set (descendants doc p)"
      using Some r by (simp add: descendants_def)
  qed
qed

lemma find_all_set:
  "(q \<in> set (find_all doc p P)) = (strict_prefix p q \<and> holds doc P q)"
  by (auto simp: find_all_def descendants_set holds_def split: option.splits)

lemma string_of_get_text: "string_of t = Some s \<Longrightarrow> get_text t = s"
  by (induction t rule: string_of.induct) auto

lemma get_text_list_append: "get_text_list (xs @ ys) = get_text_list xs @ get_text_list ys"
  by (induction xs) auto

lemma get_text_list_update:
  "i < length cs \<Longrightarrow>
   get_text_list (cs[i := c]) = get_text_list (take i cs) @ get_text c @ get_text_list (drop (Suc i) cs)"
  by (simp add: upd_conv_take_nth_drop get_text_list_append)

lemma get_text_list_split:
  "i < length cs \<Longrightarrow>
   get_text_list cs = get_text_list (take i cs) @ get_text (cs ! i) @ get_text_list (drop (Suc i) cs)"
  using get_text_list_update[of i cs "cs ! i"] by simp

lemma get_text_set_string:
  "subtree t r = Some (Tag n a cs) \<Longrightarrow>
   \<exists>pre post. get_text t = pre @ get_text (Tag n a cs) @ post \<and>
     (\<forall>s. get_text (set_string t r s) = pre @ s @ post)"
proof (induction t r rule: subtree.induct)
  case (1 t)
  then have "get_text t = [] @ get_text (Tag n a cs) @ [] \<and> (\<forall>s. get_text (set_string t [] s) = [] @ s @ [])"
    by simp
  then show ?case by blast
next
  case (2 s i p)
  then show ?case by simp
next
  case (3 m b ds i p)
  then have i: "i < length ds" and sub: "subtree (ds ! i) p = Some (Tag n a cs)"
    by (auto split: if_splits)
  from 3(1)[OF i sub] obtain pre post where
    pp: "get_text (ds ! i) = pre @ get_text (Tag n a cs) @ post"
        "\<And>s. get_text (set_string (ds ! i) p s) = pre @ s @ post"
    by blast
  let ?pre = "get_text_list (take i ds) @ pre" and ?post = "post @ get_text_list (drop (Suc i) ds)"
  have "get_text (Tag m b ds) = ?pre @ get_text (Tag n a cs) @ ?post"
    using get_text_list_split[OF i] pp(1) by simp
  moreover have "\<forall>s. get_text (set_string (Tag m b ds) (i # p) s) = ?pre @ s @ ?post"
    using i pp(2) by (simp add: get_text_list_update)
  ultimately show ?case by blast
qed

lemma subtree_set_string:
  "subtree (set_string t (p @ r) s) p = map_option (\<lambda>u. set_string u r s) (subtree t p)"
  by (induction t p rule: subtree.induct) auto


lemma holds_named: "holds page (named nm) q = (name_at page q = Some nm)"
  by (simp add: holds_def named_def name_at_def split: option.splits)

lemma find_previous_None:
  "(find_previous page q (named nm) = None) = no_preceding page q nm"
  by (auto simp: find_previous_def find_None_iff no_preceding_def holds_named)

lemma find_previous_Some:
  "(find_previous page q (named nm) = Some h) = nearest_preceding page q nm h"
  by (auto simp: find_previous_def find_Some_iff nearest_preceding_def holds_named)

lemmas nav_defs = find_all_def find_bs_def find_next_def find_previous_def find_previous_sibling_def
  descendants_def holds_def named_def named_with_def name_at_def text_at_def next_elements_def
  previous_elements_def previous_siblings_def previous_sibling_def parent_def BeautifulSoup_def
  tags_def

section \<open>Lemmas about the checker\<close>

lemma ref_count_eq:
  "ref_count lower uni paras c = c + length (filter (\<lambda>t. contains uni (lower t)) paras)"
  by (induction paras arbitrary: c) auto

lemma uni_loop_iff:
  "uni_loop lower unis paras \<longleftrightarrow> (\<exists>u\<in>set unis. 2 \<le> length (filter (\<lambda>t. contains u (lower t)) paras))"
  by (induction unis) (auto simp: ref_count_eq)

lemma relevant_section_error:
  "relevant_section lower page q = Inl e \<Longrightarrow> e = AttributeError"
  by (auto simp: relevant_section_def split: if_splits option.splits)

lemma find_all_fn_eq:
  "find_all_fn lower page qs =
     (if \<exists>q\<in>set qs. relevant_section lower page q = Inl AttributeError then Inl AttributeError
      else Inr (filter (\<lambda>q. relevant_section lower page q = Inr (Some True)) qs))"
proof (induction qs)
  case Nil
  then show ?case by simp
next
  case (Cons q qs)
  show ?case
  proof (cases "relevant_section lower page q")
    case (Inl e)
    then have "e = AttributeError" by (rule relevant_section_error)
    with Inl show ?thesis by simp
  next
    case (Inr r)
    with Cons show ?thesis by auto
  qed
qed

lemma slow_path_eq:
  "slow_path lower page unis =
     (if \<exists>q\<in>set (tags page). relevant_section lower page q = Inl AttributeError then Inl AttributeError
      else Inr (\<exists>u\<in>set unis. 2 \<le> mentions lower page u))"
  by (simp add: slow_path_def find_all_fn_eq uni_loop_iff mentions_def in_scope_def
      filter_map o_def conj_commute)

lemma paths_list_shape: "q \<in> set (paths_list i cs) \<Longrightarrow> \<exists>k p. q = (i + k) # p"
proof -
  have "set (paths_list i cs) =
      {q. \<exists>k p. q = (i + k) # p \<and> k < length cs \<and> subtree (cs ! k) p \<noteq> None}"
    by (rule paths_list_set) (rule paths_set)
  then show "q \<in> set (paths_list i cs) \<Longrightarrow> \<exists>k p. q = (i + k) # p"
    by blast
qed

lemma distinct_paths_list:
  "(\<And>c. c \<in> set cs \<Longrightarrow> distinct (paths c)) \<Longrightarrow> distinct (paths_list i cs)"
proof (induction cs arbitrary: i)
  case Nil
  then show ?case by simp
next
  case (Cons c cs)
  have "distinct (map ((#) i) (paths c))"
    using Cons.prems by (simp add: distinct_map)
  moreover have "distinct (paths_list (Suc i) cs)"
    using Cons by simp
  moreover have "set (map ((#) i) (paths c)) \<inter> set (paths_list (Suc i) cs) = {}"
  proof -
    have "q \<notin> set (map ((#) i) (paths c))" if "q \<in> set (paths_list (Suc i) cs)" for q
    proof -
      from paths_list_shape[OF that] obtain k p where "q = (Suc i + k) # p" by blast
      then show ?thesis by auto
    qed
    then show ?thesis by blast
  qed
  ultimately show ?case by simp
qed

lemma distinct_paths: "distinct (paths t)"
proof (induction t)
  case (NavigableString s)
  then show ?case by simp
next
  case (Tag n a cs)
  have "distinct (paths_list 0 cs)"
    by (rule distinct_paths_list) (rule Tag)
  then show ?case by (simp add: paths_list_nonempty)
qed

lemma distinct_tags: "distinct (tags page)"
proof -
  have "distinct (tl (paths page))"
    using distinct_paths[of page] by (simp add: distinct_tl)
  moreover have "map ((@) []) xs = xs" for xs :: "path list"
    by (induction xs) simp_all
  ultimately have "distinct (descendants page [])"
    by (simp add: descendants_def)
  then show ?thesis
    unfolding tags_def by (rule distinct_filter)
qed

lemma filter_at_most_one:
  "distinct xs \<Longrightarrow> \<forall>x\<in>set xs. P x \<longrightarrow> x = y \<Longrightarrow> length (filter P xs) \<le> 1"
proof (induction xs)
  case Nil
  then show ?case by simp
next
  case (Cons x xs)
  have d: "x \<notin> set xs" "distinct xs" and all: "\<forall>z\<in>set xs. P z \<longrightarrow> z = y"
    using Cons.prems by simp_all
  show ?case
  proof (cases "P x")
    case True
    have xy: "x = y" using Cons.prems(2) True by simp
    have "\<not> P z" if "z \<in> set xs" for z
    proof
      assume "P z"
      with all that have "z = y" by blast
      with xy that d(1) show False by simp
    qed
    then have "filter P xs = []" by (simp add: filter_empty_conv)
    with True show ?thesis by simp
  next
    case False
    with Cons.IH[OF d(2) all] show ?thesis by simp
  qed
qed

section \<open>Lemmas about the Town Extractor\<close>

lemma nested_under_unique:
  "nested_under doc item city \<Longrightarrow> nested_under doc item city' \<Longrightarrow> city' = city"
  unfolding nested_under_def by auto

lemma rewrite_neighborhood_nested:
  assumes "nested_under doc item city"
  shows "rewrite_neighborhood doc item =
     (if city \<in> set big_cities then
        (case find_next doc item (named ''a'') of
           None \<Rightarrow> Inl AttributeError
         | Some a \<Rightarrow>
             (case string_of (the (subtree doc a)) of
                None \<Rightarrow> Inl TypeError
              | Some s \<Rightarrow> Inr (set_string doc a (s @ '', '' @ city), [(a, the (subtree doc a))])))
      else Inr (doc, []))"
proof -
  from assms obtain ul s1 s2 outer city_link where
    "parent item = Some ul" "previous_sibling ul = Some s1" "previous_sibling s1 = Some s2"
    "name_at doc s2 \<noteq> Some ''h3''" "parent ul = Some outer"
    "find_next doc outer (named ''a'') = Some city_link" "text_at doc city_link = city"
    unfolding nested_under_def by blast
  then show ?thesis
    by (simp add: rewrite_neighborhood_def)
qed

lemma rewrite_neighborhood_Inr:
  assumes "rewrite_neighborhood doc item = Inr (doc', removed)"
  shows "(doc' = doc \<and> (\<forall>city. nested_under doc item city \<longrightarrow> city \<notin> set big_cities)) \<or>
     link_rewrite doc item doc'"
proof -
  from assms obtain ul s1 s2 where
    p: "parent item = Some ul" "previous_sibling ul = Some s1" "previous_sibling s1 = Some s2"
    by (auto simp: rewrite_neighborhood_def split: option.splits)
  show ?thesis
  proof (cases "name_at doc s2 = Some ''h3''")
    case True
    with p assms have "doc' = doc" by (simp add: rewrite_neighborhood_def)
    moreover have "\<not> nested_under doc item city" for city
      using p True by (auto simp: nested_under_def)
    ultimately show ?thesis by simp
  next
    case False
    with p assms obtain outer city_link where
      q: "parent ul = Some outer" "find_next doc outer (named ''a'') = Some city_link"
      by (auto simp: rewrite_neighborhood_def split: option.splits)
    let ?city = "text_at doc city_link"
    have n: "nested_under doc item ?city"
      using p q False unfolding nested_under_def by blast
    have only: "city = ?city" if "nested_under doc item city" for city
      using that p q unfolding nested_under_def by auto
    show ?thesis
    proof (cases "?city \<in> set big_cities")
      case True
      with assms rewrite_neighborhood_nested[OF n]
      obtain a s where "find_next doc item (named ''a'') = Some a"
        "string_of (the (subtree doc a)) = Some s" "doc' = set_string doc a (s @ '', '' @ ?city)"
        by (auto split: option.splits)
      with n True have "link_rewrite doc item doc'"
        unfolding link_rewrite_def by blast
      then show ?thesis ..
    next
      case False
      with assms rewrite_neighborhood_nested[OF n] have "doc' = doc" by simp
      moreover have "city \<notin> set big_cities" if "nested_under doc item city" for city
        using only[OF that] False by simp
      ultimately show ?thesis by blast
    qed
  qed
qed

lemma town_item_Inr:
  assumes "town_item lower www st item = Inr st'"
  shows "st' = st \<or>
     (\<exists>doc removed. cut_off (detached st) item = None \<and>
        find_all (soup st) item (named ''ul'') = [] \<and>
        rewrite_neighborhood (soup st) item = Inr (doc, removed) \<and> soup st' = doc \<and>
        (towns st' = towns st \<or> towns st' = towns st @ [text_at doc item @ newline]))"
proof (cases "cut_off (detached st) item")
  case (Some sub)
  with assms show ?thesis by (simp add: town_item_def split: if_splits)
next
  case None
  show ?thesis
  proof (cases "find_all (soup st) item (named ''ul'') = []")
    case False
    with None assms show ?thesis by (simp add: town_item_def)
  next
    case True
    show ?thesis
    proof (cases "rewrite_neighborhood (soup st) item")
      case (Inl e)
      with None True assms show ?thesis by (simp add: town_item_def)
    next
      case (Inr r)
      obtain doc removed where r: "r = (doc, removed)" by (cases r)
      have "soup st' = doc \<and>
          (towns st' = towns st \<or> towns st' = towns st @ [text_at doc item @ newline])"
        using assms None True Inr r
        by (auto simp: town_item_def Let_def split: if_splits sum.splits)
      with None True Inr r show ?thesis by blast
    qed
  qed
qed

lemma town_item_soup:
  "town_item lower www st item = Inr st' \<Longrightarrow>
   soup st' = soup st \<or> link_rewrite (soup st) item (soup st')"
  using town_item_Inr[of lower www st item st'] rewrite_neighborhood_Inr[of "soup st" item]
  by blast

lemma town_loop_rewritten:
  "town_loop lower www st town_list = Inr st' \<Longrightarrow> rewritten (soup st) (soup st')"
proof (induction town_list arbitrary: st)
  case Nil
  then show ?case by (simp add: rewritten_def)
next
  case (Cons item town_list)
  then obtain st1 where 1: "town_item lower www st item = Inr st1"
    and 2: "town_loop lower www st1 town_list = Inr st'"
    by (auto split: sum.splits)
  from town_item_soup[OF 1] have "rewritten (soup st) (soup st1)"
    unfolding rewritten_def by (auto intro: r_into_rtranclp)
  moreover from Cons.IH[OF 2] have "rewritten (soup st1) (soup st')" .
  ultimately show ?case
    unfolding rewritten_def by (rule rtranclp_trans)
qed

lemma text_at_set_string:
  assumes "subtree doc (item @ r) = Some (Tag n a cs)"
  shows "\<exists>pre post. text_at doc item = pre @ get_text (Tag n a cs) @ post \<and>
     (\<forall>s. text_at (set_string doc (item @ r) s) item = pre @ s @ post)"
proof -
  from assms obtain u where u: "subtree doc item = Some u" "subtree u r = Some (Tag n a cs)"
    by (auto simp: subtree_append split: option.splits)
  from get_text_set_string[OF u(2)] obtain pre post where
    "get_text u = pre @ get_text (Tag n a cs) @ post"
    "\<forall>s. get_text (set_string u r s) = pre @ s @ post"
    by blast
  then have "text_at doc item = pre @ get_text (Tag n a cs) @ post \<and>
     (\<forall>s. text_at (set_string doc (item @ r) s) item = pre @ s @ post)"
    using u(1) by (simp add: text_at_def subtree_set_string)
  then show ?thesis by blast
qed

section \<open>The example with neighbourhoods, evaluated\<close>

lemma district_rewritten:
  "set_string nbhd_doc [2, 0, 2, 0, 0] ''District, Columbus'' = nbhd_doc_rewritten"
  by (simp add: nbhd_doc_def nbhd_doc_rewritten_def BeautifulSoup_def)

lemma district_nested: "nested_under nbhd_doc [2, 0, 2, 0] ''Columbus''"
  unfolding nested_under_def
  by (rule exI[of _ "[2, 0, 2]"], rule exI[of _ "[2, 0, 1]"], rule exI[of _ "[2, 0, 0]"],
      rule exI[of _ "[2, 0]"], rule exI[of _ "[2, 0, 0]"])
    (simp add: nbhd_doc_def nav_defs)

lemma district_item:
  "town_item lower unreachable (start nbhd_doc) [2, 0, 2, 0] =
     Inr \<lparr>soup = set_string nbhd_doc [2, 0, 2, 0, 0] ''District, Columbus'',
          detached = [([2, 0, 2, 0, 0],
             Tag ''a'' [(''href'', ''/wiki/D'')] [NavigableString ''District''])],
          towns = [''District, Columbus (V Uni)[9]'' @ newline], checked = []\<rparr>"
proof -
  have b: "''Columbus'' \<in> set big_cities"
    by (simp add: big_cities_def)
  have f: "find_next nbhd_doc [2, 0, 2, 0] (named ''a'') = Some [2, 0, 2, 0, 0]"
    by (simp add: nbhd_doc_def nav_defs)
  have sub: "the (subtree nbhd_doc [2, 0, 2, 0, 0]) =
      Tag ''a'' [(''href'', ''/wiki/D'')] [NavigableString ''District'']"
    by (simp add: nbhd_doc_def BeautifulSoup_def)
  have u: "find_all nbhd_doc [2, 0, 2, 0] (named ''ul'') = []"
    by (simp add: nbhd_doc_def nav_defs)
  have t: "text_at nbhd_doc_rewritten [2, 0, 2, 0] = ''District, Columbus (V Uni)[9]''"
    by (simp add: nbhd_doc_rewritten_def nav_defs)
  show ?thesis
    using rewrite_neighborhood_nested[OF district_nested] b
    by (simp add: town_item_def start_def u f sub district_rewritten t digit_def good_sources_def)
qed

lemma smallville_nested: "nested_under nbhd_doc [2, Suc 0, 2, 0] ''Smallville''"
  unfolding nested_under_def
  by (rule exI[of _ "[2, 1, 2]"], rule exI[of _ "[2, 1, 1]"], rule exI[of _ "[2, 1, 0]"],
      rule exI[of _ "[2, 1]"], rule exI[of _ "[2, 1, 0]"])
    (simp add: nbhd_doc_def nav_defs)

lemma eastside_item:
  "town_item lower unreachable (start nbhd_doc) [2, Suc 0, 2, 0] =
     Inr \<lparr>soup = nbhd_doc, detached = [],
          towns = [''Eastside (X Uni)[9]'' @ newline], checked = []\<rparr>"
proof -
  have b: "''Smallville'' \<notin> set big_cities"
    by (simp add: big_cities_def)
  have u: "find_all nbhd_doc [2, Suc 0, 2, 0] (named ''ul'') = []"
    by (simp add: nbhd_doc_def nav_defs)
  have t: "text_at nbhd_doc [2, Suc 0, 2, 0] = ''Eastside (X Uni)[9]''"
    by (simp add: nbhd_doc_def nav_defs)
  show ?thesis
    using rewrite_neighborhood_nested[OF smallville_nested] b
    by (simp add: town_item_def start_def u t digit_def good_sources_def)
qed

lemma nbhd_run:
  "get_towns_from_state lower unreachable nbhd_doc [0] =
     Inr \<lparr>soup = nbhd_doc_rewritten,
          detached = [([2, 0, 2, 0, 0],
             Tag ''a'' [(''href'', ''/wiki/D'')] [NavigableString ''District''])],
          towns = [''District, Columbus (V Uni)[9]'' @ newline,
                   ''Eastside (X Uni)[9]'' @ newline],
          checked = []\<rparr>"
proof -
  let ?cut = "[([2, 0, 2, 0, 0::nat], Tag ''a'' [(''href'', ''/wiki/D'')] [NavigableString ''District''])]"
  let ?st1 = "\<lparr>soup = nbhd_doc_rewritten, detached = ?cut,
      towns = [''District, Columbus (V Uni)[9]'' @ newline], checked = []\<rparr>"
  have 1: "find_next nbhd_doc [0] (named ''ul'') = Some [2]"
    by (simp add: nbhd_doc_def nav_defs)
  have 2: "find_all nbhd_doc [2] (named ''li'') = [[2, 0], [2, 0, 2, 0], [2, 1], [2, 1, 2, 0]]"
    by (simp add: nbhd_doc_def nav_defs)
  have 3: "find_all nbhd_doc [2, 0] (named ''ul'') \<noteq> []"
    by (simp add: nbhd_doc_def nav_defs)
  have 4: "town_item lower unreachable (start nbhd_doc) [2, 0] = Inr (start nbhd_doc)"
    by (simp add: town_item_def start_def 3)
  have 5: "town_item lower unreachable (start nbhd_doc) [2, 0, 2, 0] = Inr ?st1"
    using district_item by (simp add: district_rewritten)
  have 6: "find_all nbhd_doc_rewritten [2, Suc 0] (named ''ul'') \<noteq> []"
    by (simp add: nbhd_doc_rewritten_def nav_defs)
  have 7: "town_item lower unreachable ?st1 [2, 1] = Inr ?st1"
    by (simp add: town_item_def 6)
  have 8: "nested_under nbhd_doc_rewritten [2, Suc 0, 2, 0] ''Smallville''"
    unfolding nested_under_def
    by (rule exI[of _ "[2, 1, 2]"], rule exI[of _ "[2, 1, 1]"], rule exI[of _ "[2, 1, 0]"],
        rule exI[of _ "[2, 1]"], rule exI[of _ "[2, 1, 0]"])
      (simp add: nbhd_doc_rewritten_def nav_defs)
  have 9: "find_all nbhd_doc_rewritten [2, Suc 0, 2, 0] (named ''ul'') = []"
    by (simp add: nbhd_doc_rewritten_def nav_defs)
  have 10: "text_at nbhd_doc_rewritten [2, Suc 0, 2, 0] = ''Eastside (X Uni)[9]''"
    by (simp add: nbhd_doc_rewritten_def nav_defs)
  have 11: "town_item lower unreachable ?st1 [2, 1, 2, 0] =
      Inr (?st1\<lparr>towns := [''District, Columbus (V Uni)[9]'' @ newline,
                   ''Eastside (X Uni)[9]'' @ newline]\<rparr>)"
    using rewrite_neighborhood_nested[OF 8]
    by (simp add: town_item_def 9 10 big_cities_def digit_def good_sources_def)
  have "town_loop lower unreachable (start nbhd_doc) [[2, 0], [2, 0, 2, 0], [2, 1], [2, 1, 2, 0]] =
     Inr (?st1\<lparr>towns := [''District, Columbus (V Uni)[9]'' @ newline,
                   ''Eastside (X Uni)[9]'' @ newline]\<rparr>)"
    by (simp only: town_loop.simps 4 5 7 11 sum.case)
  then have "get_towns_from_state lower unreachable nbhd_doc [0] =
     Inr (?st1\<lparr>towns := [''District, Columbus (V Uni)[9]'' @ newline,
                   ''Eastside (X Uni)[9]'' @ newline]\<rparr>)"
    by (simp only: get_towns_from_state_def 1 2 option.case start_def[symmetric])
  then show ?thesis by simp
qed


section \<open>Lemmas about the Pipeline Driver\<close>

lemma kept_Cons: "kept (i # q) (j # p) = (if i = j then kept q p else True)"
  by (auto simp: kept_def)

lemma paths_list_map_filter:
  "filter (kept (i # q)) (map ((#) j) ps) =
     (if i = j then map ((#) j) (filter (kept q) ps) else map ((#) j) ps)"
  by (induction ps) (auto simp: kept_Cons)

lemma paths_list_heads: "p \<in> set (paths_list k cs) \<Longrightarrow> \<exists>j r. p = j # r \<and> k \<le> j"
  using paths_list_shape[of p k cs] by auto

lemma paths_list_filter_above:
  "i < k \<Longrightarrow> filter (kept (i # q)) (paths_list k cs) = paths_list k cs"
proof -
  assume "i < k"
  then have "kept (i # q) p" if "p \<in> set (paths_list k cs)" for p
    using paths_list_heads[OF that] by (auto simp: kept_Cons)
  then show ?thesis by (simp add: filter_id_conv)
qed

lemma paths_list_update:
  assumes "i < length cs" and "paths u = filter (kept q) (paths (cs ! i))"
  shows "paths_list k (cs[i := u]) = filter (kept ((k + i) # q)) (paths_list k cs)"
  using assms
proof (induction cs arbitrary: i k)
  case Nil
  then show ?case by simp
next
  case (Cons c cs)
  show ?case
  proof (cases i)
    case 0
    with Cons.prems show ?thesis
      by (simp add: paths_list_map_filter paths_list_filter_above)
  next
    case (Suc i')
    with Cons.prems have "paths_list (Suc k) (cs[i' := u]) =
        filter (kept ((Suc k + i') # q)) (paths_list (Suc k) cs)"
      by (intro Cons.IH) simp_all
    with Suc show ?thesis
      by (simp add: paths_list_map_filter)
  qed
qed

lemma paths_set_string:
  "subtree t q = Some (Tag n a [c]) \<Longrightarrow> paths (set_string t q s) = filter (kept q) (paths t)"
proof (induction t q rule: subtree.induct)
  case (1 t)
  have "filter (kept []) (map ((#) 0) (paths c)) = [[0]]"
  proof -
    have "paths c = [] # tl (paths c)" by (rule paths_hd)
    moreover have "filter (\<lambda>p. p = []) (tl (paths c)) = []"
      by (auto simp: filter_empty_conv tl_paths_set)
    ultimately have "filter (\<lambda>p. p = []) (paths c) = [[]]"
      by (metis (mono_tags, lifting) append_Nil filter.simps(2) filter_append list.simps(8) append.simps(2))
    moreover have "filter (kept []) (map ((#) 0) ps) = map ((#) 0) (filter (\<lambda>p. p = []) ps)" for ps
      by (induction ps) (auto simp: kept_def)
    ultimately show ?thesis by simp
  qed
  moreover have "kept [] []"
    by (simp add: kept_def)
  ultimately show ?case using 1 by simp
next
  case (2 s i p)
  then show ?case by simp
next
  case (3 m b ds i p)
  then have i: "i < length ds" and sub: "subtree (ds ! i) p = Some (Tag n a [c])"
    by (auto split: if_splits)
  from 3(1)[OF i sub] have "paths (set_string (ds ! i) p s) = filter (kept p) (paths (ds ! i))" .
  moreover have "kept (i # p) []"
    by (simp add: kept_def)
  ultimately show ?case
    using paths_list_update[OF i, of "set_string (ds ! i) p s" p 0] i by simp
qed

lemma string_of_single: "string_of (Tag n a cs) = Some s \<Longrightarrow> \<exists>c. cs = [c]"
  by (cases "(Tag n a cs)" rule: string_of.cases) auto

lemma length_after_filter:
  "length (tl (dropWhile (\<lambda>p. p \<noteq> h) (filter K xs))) \<le> length (tl (dropWhile (\<lambda>p. p \<noteq> h) xs))"
proof (induction xs)
  case Nil
  then show ?case by simp
next
  case (Cons x xs)
  show ?case
  proof (cases "x = h")
    case True
    have "length (tl (dropWhile (\<lambda>p. p \<noteq> h) (filter K xs))) \<le> length (filter K xs)"
      by (metis One_nat_def diff_le_self le_trans length_dropWhile_le length_tl)
    also have "\<dots> \<le> length xs" by simp
    finally show ?thesis using True by simp
  next
    case False
    with Cons show ?thesis by simp
  qed
qed

lemma link_rewrite_after:
  assumes "link_rewrite doc item doc'"
  shows "length (next_elements doc' h) \<le> length (next_elements doc h)"
proof -
  from assms obtain city a s where a: "find_next doc item (named ''a'') = Some a"
    and s: "string_of (the (subtree doc a)) = Some s"
    and doc': "doc' = set_string doc a (s @ '', '' @ city)"
    unfolding link_rewrite_def by blast
  from a have "holds doc (named ''a'') a"
    unfolding find_next_def by (auto simp: find_Some_iff)
  then obtain at cs where sub: "subtree doc a = Some (Tag ''a'' at cs)"
    by (auto simp: holds_def named_def split: option.splits elim: name.elims)
  with s obtain c where "cs = [c]"
    using string_of_single by fastforce
  with sub doc' have "paths doc' = filter (kept a) (paths doc)"
    by (simp add: paths_set_string)
  then show ?thesis
    using length_after_filter[of h "kept a" "paths doc"] by (simp add: next_elements_def)
qed

lemma rewritten_after:
  assumes "rewritten doc doc'"
  shows "length (next_elements doc' h) \<le> length (next_elements doc h)"
  using assms unfolding rewritten_def
proof (induction rule: rtranclp_induct)
  case base
  then show ?case by simp
next
  case (step d d')
  then obtain item where "link_rewrite d item d'" by blast
  from link_rewrite_after[OF this, of h] step.IH show ?case by simp
qed

lemma find_next_after:
  assumes "find_next doc h P = Some t"
  shows "length (next_elements doc t) < length (next_elements doc h)"
proof -
  let ?xs = "paths doc"
  have h: "h \<noteq> []"
    using assms by (cases "h = []") (simp_all add: find_next_def next_elements_def)
  with assms have t: "t \<in> set (tl (dropWhile (\<lambda>p. p \<noteq> h) ?xs))"
    unfolding find_next_def next_elements_def by (auto simp: find_Some_iff)
  then obtain y ys where yys: "dropWhile (\<lambda>p. p \<noteq> h) ?xs = y # ys"
    by (cases "dropWhile (\<lambda>p. p \<noteq> h) ?xs") simp_all
  with hd_dropWhile[of "\<lambda>p. p \<noteq> h" ?xs]
  have ys: "dropWhile (\<lambda>p. p \<noteq> h) ?xs = h # ys"
    by simp
  with t have tys: "t \<in> set ys" by simp
  have split: "?xs = takeWhile (\<lambda>p. p \<noteq> h) ?xs @ h # ys"
    using ys by (metis takeWhile_dropWhile_id)
  have d: "distinct ?xs" by (rule distinct_paths)
  from d split have "distinct (takeWhile (\<lambda>p. p \<noteq> h) ?xs @ h # ys)" by simp
  then have nt: "t \<notin> set (takeWhile (\<lambda>p. p \<noteq> h) ?xs)" "t \<noteq> h" "distinct ys"
    using tys by auto
  have "dropWhile (\<lambda>p. p \<noteq> t) ?xs = dropWhile (\<lambda>p. p \<noteq> t) ys"
    by (subst split) (use nt in \<open>simp add: dropWhile_append\<close>)
  moreover have "length (tl (dropWhile (\<lambda>p. p \<noteq> t) ys)) < length ys"
  proof -
    have "ys \<noteq> []" using tys by auto
    moreover have "length (dropWhile (\<lambda>p. p \<noteq> t) ys) \<le> length ys"
      by (rule length_dropWhile_le)
    ultimately show ?thesis
      by (cases ys) (simp_all add: less_Suc_eq_le)
  qed
  ultimately show ?thesis
    using ys h tys by (cases "t = []") (auto simp: next_elements_def)
qed


lemma get_towns_rewritten:
  assumes "get_towns_from_state lower www doc tag = Inr st"
  shows "rewritten doc (soup st)"
proof -
  from assms obtain ul where
    "town_loop lower www \<lparr>soup = doc, detached = [], towns = [], checked = []\<rparr>
       (find_all doc ul (named ''li'')) = Inr st"
    by (auto simp: get_towns_from_state_def split: option.splits)
  from town_loop_rewritten[OF this] show ?thesis by simp
qed

lemma state_loop_total: "\<exists>y. state_loop lower w doc tag data = Some y"
proof (induction "remaining doc tag" arbitrary: w doc tag data rule: less_induct)
  case less
  show ?case
  proof (cases tag)
    case None
    then show ?thesis by (simp add: state_loop.simps[of lower w doc None])
  next
    case (Some h3)
    note tag = this
    show ?thesis
    proof (cases "find_previous_sibling doc h3 (named ''h2'')")
      case None
      with tag show ?thesis by (simp add: state_loop.simps[of lower w doc "Some h3"])
    next
      case (Some h2)
      note h2 = this
      show ?thesis
      proof (cases "find_bs doc h2 (named ''span'')")
        case None
        with tag h2 show ?thesis by (simp add: state_loop.simps[of lower w doc "Some h3"])
      next
        case (Some span)
        note span = this
        show ?thesis
        proof (cases "text_at doc span = ''College towns in the United States''")
          case False
          with tag h2 span show ?thesis by (simp add: state_loop.simps[of lower w doc "Some h3"])
        next
          case True
          let ?out = "w\<lparr>stdout := stdout w @ [progress (text_at doc h3)]\<rparr>"
          show ?thesis
          proof (cases "get_towns_from_state lower (internet w) doc h3")
            case (Inl e)
            with tag h2 span True show ?thesis
              by (simp add: state_loop.simps[of lower w doc "Some h3"])
          next
            case (Inr st)
            let ?next = "find_next (soup st) h3 (named ''h3'')"
            let ?data = "data @ [text_at doc h3 @ newline] @ towns st"
            have le: "length (next_elements (soup st) h3) \<le> length (next_elements doc h3)"
              using rewritten_after[OF get_towns_rewritten[OF Inr]] .
            have "remaining (soup st) ?next < remaining doc tag"
            proof (cases ?next)
              case None
              with tag show ?thesis by (simp add: remaining_def)
            next
              case (Some t)
              from find_next_after[OF this] le tag Some show ?thesis
                by (simp add: remaining_def)
            qed
            from less[OF this] obtain y where
              "state_loop lower ?out (soup st) ?next ?data = Some y"
              by blast
            moreover have "state_loop lower w doc tag data = state_loop lower ?out (soup st) ?next ?data"
              using tag h2 span True Inr by (simp add: state_loop.simps[of lower w doc "Some h3"])
            ultimately show ?thesis by simp
          qed
        qed
      qed
    qed
  qed
qed

lemma scrape_total: "\<exists>y. scrape_university_towns lower w = Some y"
  using state_loop_total
  by (simp add: scrape_university_towns_def Let_def split: option.splits)

lemma state_loop_frame:
  assumes "state_loop lower w doc tag data = Some y"
  shows "internet (snd y) = internet w \<and>
     (\<forall>v. internet v = internet w \<longrightarrow> (\<exists>v'. state_loop lower v doc tag data = Some (fst y, v')))"
  using assms
proof (induction lower w doc tag data y
    rule: state_loop.raw_induct[rotated 1, consumes 1, case_names step])
  case (step f lower w doc tag data y)
  note IH = step(1) and eq = step(2)
  have stop: ?case if "y = (r, w)" "\<And>v. state_loop lower v doc tag data = Some (r, v)" for r
    using that by simp
  show ?case
  proof (cases tag)
    case None
    show ?thesis
      by (rule stop[of "Inl AttributeError"])
        (use eq None in \<open>simp_all add: state_loop.simps[of lower _ doc None]\<close>)
  next
    case (Some h3)
    note tag = this
    show ?thesis
    proof (cases "find_previous_sibling doc h3 (named ''h2'')")
      case None
      show ?thesis
        by (rule stop[of "Inl AttributeError"])
          (use eq tag None in \<open>simp_all add: state_loop.simps[of lower _ doc "Some h3"]\<close>)
    next
      case (Some h2)
      note h2 = this
      show ?thesis
      proof (cases "find_bs doc h2 (named ''span'')")
        case None
        show ?thesis
          by (rule stop[of "Inl AttributeError"])
            (use eq tag h2 None in \<open>simp_all add: state_loop.simps[of lower _ doc "Some h3"]\<close>)
      next
        case (Some span)
        note span = this
        show ?thesis
        proof (cases "text_at doc span = ''College towns in the United States''")
          case False
          show ?thesis
            by (rule stop[of "Inr data"])
              (use eq tag h2 span False in \<open>simp_all add: state_loop.simps[of lower _ doc "Some h3"]\<close>)
        next
          case True
          let ?out = "\<lambda>v. v\<lparr>stdout := stdout v @ [progress (text_at doc h3)]\<rparr>"
          show ?thesis
          proof (cases "get_towns_from_state lower (internet w) doc h3")
            case (Inl e)
            have y: "y = (Inl e, ?out w)"
              using eq tag h2 span True Inl by simp
            have "state_loop lower v doc tag data = Some (Inl e, ?out v)" if "internet v = internet w" for v
              using that tag h2 span True Inl
              by (simp add: state_loop.simps[of lower v doc "Some h3"])
            with y show ?thesis by auto
          next
            case (Inr st)
            let ?next = "find_next (soup st) h3 (named ''h3'')"
            let ?data = "data @ [text_at doc h3 @ newline] @ towns st"
            have "f lower (?out w) (soup st) ?next ?data = Some y"
              using eq tag h2 span True Inr by simp
            from IH[OF this] have ih: "internet (snd y) = internet w"
              "\<And>v. internet v = internet w \<Longrightarrow>
                 \<exists>v'. state_loop lower v (soup st) ?next ?data = Some (fst y, v')"
              by simp_all
            have "\<exists>v'. state_loop lower v doc tag data = Some (fst y, v')" if "internet v = internet w" for v
            proof -
              have "state_loop lower v doc tag data = state_loop lower (?out v) (soup st) ?next ?data"
                using that tag h2 span True Inr
                by (simp add: state_loop.simps[of lower v doc "Some h3"])
              moreover have "internet (?out v) = internet w"
                using that by simp
              ultimately show ?thesis using ih(2) by simp
            qed
            with ih(1) show ?thesis by simp
          qed
        qed
      qed
    qed
  qed
qed

section \<open>Lemmas about the citation markers\<close>

lemma not_digit_bracket [simp]: "\<not> digit CHR ''[''" "\<not> digit CHR '']''"
  by (simp_all add: digit_def)

lemma findall_sound: "s \<in> set (findall line) \<Longrightarrow> marker_in line s"
proof (induction line rule: findall.induct)
  case (1 a b c d rest)
  have ext: "marker_in (xs @ ys) s" if "marker_in ys s" for xs ys
  proof -
    from that obtain pre post where "ys = pre @ ''['' @ s @ '']'' @ post"
      "s \<noteq> []" "length s \<le> 2" "\<forall>c\<in>set s. digit c"
      unfolding marker_in_def by blast
    then have "xs @ ys = (xs @ pre) @ ''['' @ s @ '']'' @ post \<and>
        s \<noteq> [] \<and> length s \<le> 2 \<and> (\<forall>c\<in>set s. digit c)"
      by simp
    then show ?thesis unfolding marker_in_def by blast
  qed
  show ?case
  proof (cases "a = CHR ''['' \<and> digit b \<and> digit c \<and> d = CHR '']''")
    case True
    with 1(4) consider "s = [b, c]" | "s \<in> set (findall rest)" by auto
    then show ?thesis
    proof cases
      case 1
      with True have "a # b # c # d # rest = [] @ ''['' @ s @ '']'' @ rest \<and>
        s \<noteq> [] \<and> length s \<le> 2 \<and> (\<forall>c\<in>set s. digit c)"
        by simp
      then show ?thesis unfolding marker_in_def by blast
    next
      case 2
      with "1.IH"(1) True have "marker_in rest s" by simp
      from ext[OF this, of "[a, b, c, d]"] show ?thesis by simp
    qed
  next
    case False
    note nf = this
    show ?thesis
    proof (cases "a = CHR ''['' \<and> digit b \<and> c = CHR '']''")
      case True
      with nf 1(4) consider "s = [b]" | "s \<in> set (findall (d # rest))" by auto
      then show ?thesis
      proof cases
        case 1
        with True have "a # b # c # d # rest = [] @ ''['' @ s @ '']'' @ (d # rest) \<and>
          s \<noteq> [] \<and> length s \<le> 2 \<and> (\<forall>c\<in>set s. digit c)"
          by simp
        then show ?thesis unfolding marker_in_def by blast
      next
        case 2
        with "1.IH"(2) nf True have "marker_in (d # rest) s" by simp
        from ext[OF this, of "[a, b, c]"] show ?thesis by simp
      qed
    next
      case False
      with nf 1(4) have "s \<in> set (findall (b # c # d # rest))" by auto
      with "1.IH"(3) nf False have "marker_in (b # c # d # rest) s" by simp
      from ext[OF this, of "[a]"] show ?thesis by simp
    qed
  qed
next
  case (2 a b c)
  then have "a = CHR ''['' \<and> digit b \<and> c = CHR '']'' \<and> s = [b]"
    by (auto split: if_splits)
  then have "[a, b, c] = [] @ ''['' @ s @ '']'' @ [] \<and>
          s \<noteq> [] \<and> length s \<le> 2 \<and> (\<forall>c\<in>set s. digit c)"
    by simp
  then show ?case unfolding marker_in_def by blast
qed simp_all


lemma findall_here:
  assumes "s \<noteq> []" "length s \<le> 2" "\<forall>c\<in>set s. digit c"
  shows "s \<in> set (findall (CHR ''['' # s @ CHR '']'' # post))"
proof -
  from assms(1,2) consider d where "s = [d]" | d e where "s = [d, e]"
    by (cases s rule: findall.cases) auto
  then show ?thesis
  proof cases
    case 1
    with assms(3) show ?thesis by (cases post) simp_all
  next
    case 2
    with assms(3) show ?thesis by simp
  qed
qed

lemma findall_complete_aux:
  assumes "s \<noteq> []" "length s \<le> 2" "\<forall>c\<in>set s. digit c"
  shows "s \<in> set (findall (pre @ CHR ''['' # s @ CHR '']'' # post))"
proof (induction pre rule: length_induct)
  case (1 pre)
  let ?m = "CHR ''['' # s @ CHR '']'' # post"
  from assms(1) obtain d s' where s: "s = d # s'" by (cases s) auto
  with assms(3) have d: "digit d" by simp
  show ?case
  proof (cases pre)
    case Nil
    with findall_here[OF assms] show ?thesis by simp
  next
    case (Cons a pre1)
    note p0 = this
    have IH: "s \<in> set (findall (xs @ ?m))" if "length xs < length pre" for xs
      using 1 that by blast
    show ?thesis
    proof (cases pre1)
      case Nil
      \<comment> \<open>the marker starts at the second character\<close>
      have "findall (a # ?m) = findall ?m \<or> s \<in> set (findall (a # ?m))"
        using s d by (cases s') (auto simp: Let_def)
      with findall_here[OF assms] p0 Nil show ?thesis by auto
    next
      case (Cons b pre2)
      note p1 = this
      show ?thesis
      proof (cases pre2)
        case Nil
        \<comment> \<open>the marker starts at the third character\<close>
        have "findall (a # b # ?m) = findall (b # ?m)"
          using s by simp
        moreover have "s \<in> set (findall (b # ?m))"
          using IH[of "[b]"] p0 p1 by simp
        ultimately show ?thesis using p0 p1 Nil by simp
      next
        case (Cons c pre3)
        note p2 = this
        show ?thesis
        proof (cases pre3)
          case Nil
          \<comment> \<open>the marker starts at the fourth character\<close>
          have "findall (a # b # c # ?m) =
              (if a = CHR ''['' \<and> digit b \<and> c = CHR '']'' then [b] # findall ?m
               else findall (b # c # ?m))"
            by simp
          moreover have "s \<in> set (findall ?m)"
            using IH[of "[]"] p0 by simp
          moreover have "s \<in> set (findall (b # c # ?m))"
            using IH[of "[b, c]"] p0 p1 p2 by simp
          ultimately show ?thesis using p0 p1 p2 Nil by simp
        next
          case (Cons e pre4)
          have "findall (a # b # c # e # pre4 @ ?m) =
              (if a = CHR ''['' \<and> digit b \<and> digit c \<and> e = CHR '']''
               then [b, c] # findall (pre4 @ ?m)
               else if a = CHR ''['' \<and> digit b \<and> c = CHR '']''
               then [b] # findall (e # pre4 @ ?m)
               else findall (b # c # e # pre4 @ ?m))"
            by simp
          moreover have "s \<in> set (findall (pre4 @ ?m))"
            using IH[of pre4] p0 p1 p2 Cons by simp
          moreover have "s \<in> set (findall (e # pre4 @ ?m))"
            using IH[of "e # pre4"] p0 p1 p2 Cons by simp
          moreover have "s \<in> set (findall (b # c # e # pre4 @ ?m))"
            using IH[of "b # c # e # pre4"] p0 p1 p2 Cons by simp
          ultimately show ?thesis using p0 p1 p2 Cons by simp
        qed
      qed
    qed
  qed
qed

lemma findall_iff: "s \<in> set (findall line) \<longleftrightarrow> marker_in line s"
proof
  assume "s \<in> set (findall line)"
  then show "marker_in line s" by (rule findall_sound)
next
  assume "marker_in line s"
  then obtain pre post where "line = pre @ ''['' @ s @ '']'' @ post"
    "s \<noteq> []" "length s \<le> 2" "\<forall>c\<in>set s. digit c"
    unfolding marker_in_def by blast
  with findall_complete_aux[of s pre post] show "s \<in> set (findall line)"
    by simp
qed

section \<open>The claims about the Section Classifier and the Corroboration Checker\<close>

text \<open>
  C7. On a paragraph or a table the Section Classifier returns true exactly when no
  level-2 heading comes before the node, or the nearest level-2 heading before it has a
  label (its first \<open>span\<close>) whose text contains \<open>economy\<close>, compared without case. On a node
  of any other kind it returns nothing, so the node is never marked in-scope.
\<close>

theorem relevant_section_scope:
  "(relevant_section lower page q = Inr (Some True) \<longleftrightarrow>
      (name_at page q = Some ''p'' \<or> name_at page q = Some ''table'') \<and>
      (no_preceding page q ''h2'' \<or>
       (\<exists>h label. nearest_preceding page q ''h2'' h \<and>
          find_bs page h (named ''span'') = Some label \<and>
          contains ''economy'' (lower (text_at page label)))))
   \<and> (name_at page q \<noteq> Some ''p'' \<and> name_at page q \<noteq> Some ''table'' \<longrightarrow>
        relevant_section lower page q = Inr None)"
proof -
  let ?para = "name_at page q = Some ''p'' \<or> name_at page q = Some ''table''"
  let ?econ = "\<exists>h label. nearest_preceding page q ''h2'' h \<and>
          find_bs page h (named ''span'') = Some label \<and>
          contains ''economy'' (lower (text_at page label))"
  have other: "relevant_section lower page q = Inr None" if "\<not> ?para"
    using that by (simp add: relevant_section_def)
  have main: "relevant_section lower page q = Inr (Some True) \<longleftrightarrow> no_preceding page q ''h2'' \<or> ?econ"
    if para: ?para
  proof (cases "find_previous page q (named ''h2'')")
    case None
    then have "no_preceding page q ''h2''"
      by (simp add: find_previous_None)
    moreover have "relevant_section lower page q = Inr (Some True)"
      using None para by (simp add: relevant_section_def)
    ultimately show ?thesis by simp
  next
    case (Some h)
    then have near: "nearest_preceding page q ''h2'' h"
      by (simp add: find_previous_Some)
    have uniq: "h' = h" if "nearest_preceding page q ''h2'' h'" for h'
      using that Some by (simp add: find_previous_Some[symmetric])
    have nonone: "\<not> no_preceding page q ''h2''"
      using Some find_previous_None[of page q "''h2''"] by simp
    show ?thesis
    proof (cases "find_bs page h (named ''span'')")
      case None
      have "relevant_section lower page q = Inl AttributeError"
        using None Some para by (simp add: relevant_section_def)
      moreover have "\<not> ?econ"
        using uniq None by force
      ultimately show ?thesis using nonone by simp
    next
      case (Some label)
      have "relevant_section lower page q =
          (if contains ''economy'' (lower (text_at page label)) then Inr (Some True)
           else Inr (Some False))"
        using Some \<open>find_previous page q (named ''h2'') = Some h\<close> para
        by (simp add: relevant_section_def)
      moreover have "?econ \<longleftrightarrow> contains ''economy'' (lower (text_at page label))"
      proof
        assume ?econ
        then obtain h' l where "nearest_preceding page q ''h2'' h'"
          "find_bs page h' (named ''span'') = Some l" "contains ''economy'' (lower (text_at page l))"
          by blast
        with uniq[of h'] Some show "contains ''economy'' (lower (text_at page label))"
          by simp
      next
        assume "contains ''economy'' (lower (text_at page label))"
        with near Some show ?econ by blast
      qed
      ultimately show ?thesis using nonone by simp
    qed
  qed
  show ?thesis
  proof (cases ?para)
    case True
    with main[OF True] show ?thesis by auto
  next
    case False
    with other[OF False] show ?thesis by auto
  qed
qed

theorem relevant_section_scope_witness:
  "name_at page_sections [3] = Some ''p'' \<and>
   nearest_preceding page_sections [3] ''h2'' [2] \<and>
   find_bs page_sections [2] (named ''span'') = Some [2, 0] \<and>
   contains ''economy'' (ascii_lower (text_at page_sections [2, 0])) \<and>
   relevant_section ascii_lower page_sections [3] = Inr (Some True) \<and>
   name_at page_sections [4] = Some ''div'' \<and>
   relevant_section ascii_lower page_sections [4] = Inr None"
proof -
  have 1: "name_at page_sections [3] = Some ''p''"
    by (simp add: page_sections_def nav_defs)
  have "find_previous page_sections [3] (named ''h2'') = Some [2]"
    by (simp add: page_sections_def nav_defs)
  then have 2: "nearest_preceding page_sections [3] ''h2'' [2]"
    by (simp add: find_previous_Some)
  have 3: "find_bs page_sections [2] (named ''span'') = Some [2, 0]"
    by (simp add: page_sections_def nav_defs)
  have 4: "contains ''economy'' (ascii_lower (text_at page_sections [2, 0]))"
    by (simp add: page_sections_def nav_defs ascii_lower_def lower_char_def)
  have 5: "name_at page_sections [4] = Some ''div''"
    by (simp add: page_sections_def nav_defs)
  from 1 2 3 4 have "relevant_section ascii_lower page_sections [3] = Inr (Some True)"
    using relevant_section_scope[of ascii_lower page_sections "[3]"] by blast
  moreover from 5 have "relevant_section ascii_lower page_sections [4] = Inr None"
    using relevant_section_scope[of ascii_lower page_sections "[4]"] by simp
  ultimately show ?thesis using 1 2 3 4 5 by simp
qed

text \<open>
  C1. The article \<open>page_broken\<close> names the university in two paragraphs of its lead
  section, so the name has two mentions in scope, and has no link to the category. A
  later paragraph follows a heading without a label, on which the Section Classifier
  raises an error; the classifier is run on every tag before the mentions are counted,
  and the checker ends with that error instead of returning true.
\<close>

theorem two_mentions_not_accepted:
  "find_all (BeautifulSoup page_broken) [4] (named_with ''a'' ''href'' uni_towns_link) = [] \<and>
   universities ascii_lower candidate_doc [0] = [''u uni''] \<and>
   mentions ascii_lower (BeautifulSoup page_broken) ''u uni'' = 2 \<and>
   relevant_section ascii_lower (BeautifulSoup page_broken) [3] = Inl AttributeError \<and>
   check_college_town_status ascii_lower (serve page_broken) candidate_doc [0] =
     Inl AttributeError"
proof -
  let ?page = "BeautifulSoup page_broken"
  have 1: "find_next candidate_doc [0] (named ''a'') = Some [0, 0]"
    by (simp add: candidate_doc_def nav_defs)
  have 2: "map_of (attrs (the (subtree candidate_doc [0, 0]))) ''href'' = Some ''/wiki/T''"
    by (simp add: candidate_doc_def nav_defs)
  have 3: "serve page_broken (base_url @ ''/wiki/T'') = Some page_broken"
    by (simp add: serve_def base_url_def)
  have 4: "find_bs ?page [] (named_with ''div'' ''id'' ''catlinks'') = Some [4]"
    by (simp add: page_broken_def nav_defs)
  have 5: "find_all ?page [4] (named_with ''a'' ''href'' uni_towns_link) = []"
    by (simp add: page_broken_def nav_defs)
  have 6: "universities ascii_lower candidate_doc [0] = [''u uni'']"
    by (simp add: universities_def candidate_doc_def nav_defs ascii_lower_def lower_char_def)
  have 7: "tags ?page = [[0], [Suc 0], [2], [3], [4]]"
    by (simp add: page_broken_def nav_defs)
  have 8: "relevant_section ascii_lower ?page [0] = Inr (Some True)"
    "relevant_section ascii_lower ?page [Suc 0] = Inr (Some True)"
    "relevant_section ascii_lower ?page [2] = Inr None"
    "relevant_section ascii_lower ?page [3] = Inl AttributeError"
    "relevant_section ascii_lower ?page [4] = Inr None"
    by (simp_all add: page_broken_def nav_defs relevant_section_def)
  have 9: "mentions ascii_lower ?page ''u uni'' = 2"
    by (simp add: mentions_def 7 in_scope_def 8)
      (simp add: page_broken_def nav_defs ascii_lower_def lower_char_def)
  have "slow_path ascii_lower ?page [''u uni''] = Inl AttributeError"
    by (simp add: slow_path_eq 7 8)
  then have "check_college_town_status ascii_lower (serve page_broken) candidate_doc [0] =
      Inl AttributeError"
    by (simp add: check_college_town_status_def 1 2 3 4 5 6)
  with 5 6 8 9 show ?thesis by simp
qed

text \<open>
  C1, as the code has it. A candidate reaches the slow path when its article was
  fetched and the category-links region of the article holds no link to the category.
  When the Section Classifier returns on every tag of the article, the checker returns
  true exactly when some associated university name has at least two mentions, a
  mention being a node of the article that the classifier marks in-scope and whose
  lower-cased text contains the name; nodes out of scope are not counted. When the
  classifier raises on some tag of the article, the checker ends with that error.
\<close>

theorem slow_path_two_mentions:
  assumes "find_next doc tag (named ''a'') = Some a"
    and "map_of (attrs (the (subtree doc a))) ''href'' = Some href"
    and "www (base_url @ href) = Some contents"
    and "find_bs (BeautifulSoup contents) [] (named_with ''div'' ''id'' ''catlinks'') =
           Some category_links"
    and "find_all (BeautifulSoup contents) category_links
           (named_with ''a'' ''href'' uni_towns_link) = []"
  shows "check_college_town_status lower www doc tag =
     (if \<exists>q\<in>set (tags (BeautifulSoup contents)).
           relevant_section lower (BeautifulSoup contents) q = Inl AttributeError
      then Inl AttributeError
      else Inr (\<exists>uni\<in>set (universities lower doc tag). 2 \<le> mentions lower (BeautifulSoup contents) uni))"
  using assms by (simp add: check_college_town_status_def slow_path_eq)

theorem slow_path_two_mentions_witness:
  "find_next candidate_doc [0] (named ''a'') = Some [0, 0] \<and>
   map_of (attrs (the (subtree candidate_doc [0, 0]))) ''href'' = Some ''/wiki/T'' \<and>
   serve page_two (base_url @ ''/wiki/T'') = Some page_two \<and>
   find_bs (BeautifulSoup page_two) [] (named_with ''div'' ''id'' ''catlinks'') = Some [2] \<and>
   find_all (BeautifulSoup page_two) [2] (named_with ''a'' ''href'' uni_towns_link) = [] \<and>
   universities ascii_lower candidate_doc [0] = [''u uni''] \<and>
   mentions ascii_lower (BeautifulSoup page_two) ''u uni'' = 2 \<and>
   check_college_town_status ascii_lower (serve page_two) candidate_doc [0] = Inr True"
proof -
  have 1: "find_next candidate_doc [0] (named ''a'') = Some [0, 0]"
    by (simp add: candidate_doc_def nav_defs)
  have 2: "map_of (attrs (the (subtree candidate_doc [0, 0]))) ''href'' = Some ''/wiki/T''"
    by (simp add: candidate_doc_def nav_defs)
  have 3: "serve page_two (base_url @ ''/wiki/T'') = Some page_two"
    by (simp add: serve_def base_url_def)
  have 4: "find_bs (BeautifulSoup page_two) [] (named_with ''div'' ''id'' ''catlinks'') = Some [2]"
    by (simp add: page_two_def nav_defs)
  have 5: "find_all (BeautifulSoup page_two) [2] (named_with ''a'' ''href'' uni_towns_link) = []"
    by (simp add: page_two_def nav_defs)
  have 6: "universities ascii_lower candidate_doc [0] = [''u uni'']"
    by (simp add: universities_def candidate_doc_def nav_defs ascii_lower_def lower_char_def)
  have 7: "tags (BeautifulSoup page_two) = [[0], [Suc 0], [2]]"
    by (simp add: page_two_def nav_defs)
  have 8: "relevant_section ascii_lower (BeautifulSoup page_two) [0] = Inr (Some True)"
    "relevant_section ascii_lower (BeautifulSoup page_two) [Suc 0] = Inr (Some True)"
    "relevant_section ascii_lower (BeautifulSoup page_two) [2] = Inr None"
    by (simp_all add: page_two_def nav_defs relevant_section_def)
  have 9: "mentions ascii_lower (BeautifulSoup page_two) ''u uni'' = 2"
    by (simp add: mentions_def 7 in_scope_def 8)
      (simp add: page_two_def nav_defs ascii_lower_def lower_char_def)
  have "check_college_town_status ascii_lower (serve page_two) candidate_doc [0] = Inr True"
    using slow_path_two_mentions[where www = "serve page_two" and lower = ascii_lower, OF 1 2 3 4 5]
    by (simp add: 6 7 8 9)
  with 1 2 3 4 5 6 9 show ?thesis by simp
qed

text \<open>
  C3. When the category-links region of the candidate's article holds a link to the
  category "University towns in the United States", the checker returns true at once:
  the result does not depend on the universities or on the rest of the article, and
  the scan of the slow path is not run (in the example that follows the theorem it would
  raise an error).
\<close>

theorem category_link_accepts:
  assumes "find_next doc tag (named ''a'') = Some a"
    and "map_of (attrs (the (subtree doc a))) ''href'' = Some href"
    and "www (base_url @ href) = Some contents"
    and "find_bs (BeautifulSoup contents) [] (named_with ''div'' ''id'' ''catlinks'') =
           Some category_links"
    and "find_all (BeautifulSoup contents) category_links
           (named_with ''a'' ''href'' uni_towns_link) \<noteq> []"
  shows "check_college_town_status lower www doc tag = Inr True"
  using assms by (simp add: check_college_town_status_def)

theorem category_link_accepts_witness:
  "find_next candidate_doc [0] (named ''a'') = Some [0, 0] \<and>
   map_of (attrs (the (subtree candidate_doc [0, 0]))) ''href'' = Some ''/wiki/T'' \<and>
   serve page_cat (base_url @ ''/wiki/T'') = Some page_cat \<and>
   find_bs (BeautifulSoup page_cat) [] (named_with ''div'' ''id'' ''catlinks'') = Some [2] \<and>
   find_all (BeautifulSoup page_cat) [2] (named_with ''a'' ''href'' uni_towns_link) = [[2, 0]] \<and>
   slow_path ascii_lower (BeautifulSoup page_cat) (universities ascii_lower candidate_doc [0]) = Inl AttributeError \<and>
   check_college_town_status ascii_lower (serve page_cat) candidate_doc [0] = Inr True"
proof -
  have 1: "find_next candidate_doc [0] (named ''a'') = Some [0, 0]"
    by (simp add: candidate_doc_def nav_defs)
  have 2: "map_of (attrs (the (subtree candidate_doc [0, 0]))) ''href'' = Some ''/wiki/T''"
    by (simp add: candidate_doc_def nav_defs)
  have 3: "serve page_cat (base_url @ ''/wiki/T'') = Some page_cat"
    by (simp add: serve_def base_url_def)
  have 4: "find_bs (BeautifulSoup page_cat) [] (named_with ''div'' ''id'' ''catlinks'') = Some [2]"
    by (simp add: page_cat_def nav_defs)
  have 5: "find_all (BeautifulSoup page_cat) [2] (named_with ''a'' ''href'' uni_towns_link) = [[2, 0]]"
    by (simp add: page_cat_def nav_defs uni_towns_link_def)
  have 6: "relevant_section ascii_lower (BeautifulSoup page_cat) [Suc 0] = Inl AttributeError"
    by (simp add: page_cat_def nav_defs relevant_section_def)
  have "[Suc 0] \<in> set (tags (BeautifulSoup page_cat))"
    by (simp add: page_cat_def nav_defs)
  with 6 have 7: "slow_path ascii_lower (BeautifulSoup page_cat) (universities ascii_lower candidate_doc [0]) = Inl AttributeError"
    by (auto simp: slow_path_eq)
  have "check_college_town_status ascii_lower (serve page_cat) candidate_doc [0] = Inr True"
    using category_link_accepts[where www = "serve page_cat" and lower = ascii_lower, OF 1 2 3 4] 5
    by simp
  with 1 2 3 4 5 7 show ?thesis by simp
qed

text \<open>
  C10. Every paragraph adds at most one to the count of a university, however often
  its text contains the name. So a university that is named in a single in-scope node
  of the article, and in no other in-scope node, has at most one mention, and the slow
  path does not accept on it.
\<close>

theorem one_mention_per_node:
  "ref_count lower uni (para # paras) c \<le> ref_count lower uni paras c + 1 \<and>
   ((\<forall>q\<in>set (tags page). in_scope lower page q \<and> contains uni (lower (text_at page q)) \<longrightarrow> q = q0)
      \<longrightarrow> mentions lower page uni \<le> 1 \<and> slow_path lower page [uni] \<noteq> Inr True)"
proof -
  have "ref_count lower uni (para # paras) c \<le> ref_count lower uni paras c + 1"
    by (simp add: ref_count_eq)
  moreover have "mentions lower page uni \<le> 1 \<and> slow_path lower page [uni] \<noteq> Inr True"
    if "\<forall>q\<in>set (tags page). in_scope lower page q \<and> contains uni (lower (text_at page q)) \<longrightarrow> q = q0"
  proof -
    have "mentions lower page uni \<le> 1"
      unfolding mentions_def using distinct_tags that by (rule filter_at_most_one)
    then show ?thesis by (simp add: slow_path_eq)
  qed
  ultimately show ?thesis by blast
qed

theorem one_mention_per_node_witness:
  "contains ''u uni'' (drop 7 (ascii_lower ''U Uni, u uni'')) \<and>
   ref_count ascii_lower ''u uni'' [''U Uni, u uni''] 0 \<le> 1 \<and>
   filter (\<lambda>q. in_scope ascii_lower (BeautifulSoup page_once) q \<and>
             contains ''u uni'' (ascii_lower (text_at (BeautifulSoup page_once) q)))
     (tags (BeautifulSoup page_once)) = [[0]] \<and>
   mentions ascii_lower (BeautifulSoup page_once) ''u uni'' \<le> 1 \<and>
   slow_path ascii_lower (BeautifulSoup page_once) [''u uni''] \<noteq> Inr True"
proof -
  have 1: "tags (BeautifulSoup page_once) = [[0], [Suc 0], [Suc 0, 0], [2], [3]]"
    by (simp add: page_once_def nav_defs)
  have 2: "in_scope ascii_lower (BeautifulSoup page_once) [0]"
    "\<not> in_scope ascii_lower (BeautifulSoup page_once) [Suc 0]"
    "\<not> in_scope ascii_lower (BeautifulSoup page_once) [Suc 0, 0]"
    "\<not> in_scope ascii_lower (BeautifulSoup page_once) [2]"
    "\<not> in_scope ascii_lower (BeautifulSoup page_once) [3]"
    by (simp_all add: in_scope_def page_once_def nav_defs relevant_section_def ascii_lower_def lower_char_def)
  have 3: "\<forall>q\<in>set (tags (BeautifulSoup page_once)).
      in_scope ascii_lower (BeautifulSoup page_once) q \<and>
      contains ''u uni'' (ascii_lower (text_at (BeautifulSoup page_once) q)) \<longrightarrow> q = [0]"
    by (simp add: 1 2)
  have 4: "contains ''u uni'' (drop 7 (ascii_lower ''U Uni, u uni''))"
    by (simp add: ascii_lower_def lower_char_def)
  have 5: "ref_count ascii_lower ''u uni'' [''U Uni, u uni''] 0 \<le> 1"
    using one_mention_per_node[where lower = ascii_lower and uni = "''u uni''"
        and para = "''U Uni, u uni''" and paras = "[]" and c = 0]
    by simp
  from 3 have "mentions ascii_lower (BeautifulSoup page_once) ''u uni'' \<le> 1 \<and>
      slow_path ascii_lower (BeautifulSoup page_once) [''u uni''] \<noteq> Inr True"
    using one_mention_per_node[where lower = ascii_lower and uni = "''u uni''"
        and page = "BeautifulSoup page_once" and ?q0.0 = "[0]"]
    by blast
  moreover have "filter (\<lambda>q. in_scope ascii_lower (BeautifulSoup page_once) q \<and>
             contains ''u uni'' (ascii_lower (text_at (BeautifulSoup page_once) q)))
     (tags (BeautifulSoup page_once)) = [[0]]"
    by (simp add: 1 2) (simp add: page_once_def nav_defs ascii_lower_def lower_char_def)
  ultimately show ?thesis using 4 5 by blast
qed

section \<open>The claims about the Town Extractor\<close>

text \<open>
  C2. In \<open>adjacent_doc\<close> the list follows its heading with nothing in between. The
  candidate \<open>T (U Uni)[7]\<close> holds the trusted marker \<open>[7]\<close>, but the check of line 137
  finds no second sibling before the list and raises an error: the candidate is not
  accepted and the run over the list ends with the error. In \<open>nbhd_doc\<close> the item of
  \<open>Columbus\<close> holds the trusted marker \<open>[9]\<close> in the text of its nested list; it is skipped,
  not accepted.
\<close>

theorem trusted_citation_not_accepted:
  "marker_in (text_at adjacent_doc [1, 0]) ''7'' \<and> ''7'' \<in> set good_sources \<and>
   town_item ascii_lower unreachable (start adjacent_doc) [1, 0] = Inl AttributeError \<and>
   get_towns_from_state ascii_lower unreachable adjacent_doc [0] = Inl AttributeError \<and>
   marker_in (text_at nbhd_doc [2, 0]) ''9'' \<and> ''9'' \<in> set good_sources \<and>
   town_item ascii_lower unreachable (start nbhd_doc) [2, 0] = Inr (start nbhd_doc)"
proof -
  have 1: "text_at adjacent_doc [Suc 0, 0] = ''T (U Uni)[7]''"
    by (simp add: adjacent_doc_def nav_defs)
  have "''7'' \<in> set (findall ''T (U Uni)[7]'')"
    by (simp add: digit_def)
  then have "marker_in ''T (U Uni)[7]'' ''7''"
    by (rule findall_sound)
  with 1 have 2: "marker_in (text_at adjacent_doc [Suc 0, 0]) ''7''"
    by (simp only:)
  have 3: "find_all adjacent_doc [Suc 0, 0] (named ''ul'') = []"
    by (simp add: adjacent_doc_def nav_defs)
  have 4: "rewrite_neighborhood adjacent_doc [Suc 0, 0] = Inl AttributeError"
    by (simp add: rewrite_neighborhood_def parent_def previous_sibling_def)
  have 5: "town_item ascii_lower unreachable (start adjacent_doc) [Suc 0, 0] = Inl AttributeError"
    by (simp add: town_item_def start_def 3 4)
  have 6: "find_next adjacent_doc [0] (named ''ul'') = Some [Suc 0]"
    "find_all adjacent_doc [Suc 0] (named ''li'') = [[Suc 0, 0]]"
    by (simp_all add: adjacent_doc_def nav_defs)
  have 7: "get_towns_from_state ascii_lower unreachable adjacent_doc [0] = Inl AttributeError"
    using 5 by (simp add: get_towns_from_state_def 6 start_def)
  have 8: "text_at nbhd_doc [2, 0] = ''Columbus'' @ newline @ ''District (V Uni)[9]''"
    by (simp add: nbhd_doc_def nav_defs)
  have "''9'' \<in> set (findall (''Columbus'' @ newline @ ''District (V Uni)[9]''))"
    by (simp add: digit_def newline_def)
  then have "marker_in (''Columbus'' @ newline @ ''District (V Uni)[9]'') ''9''"
    by (rule findall_sound)
  with 8 have 9: "marker_in (text_at nbhd_doc [2, 0]) ''9''"
    by (simp only:)
  have 10: "find_all nbhd_doc [2, 0] (named ''ul'') \<noteq> []"
    by (simp add: nbhd_doc_def nav_defs)
  have 11: "town_item ascii_lower unreachable (start nbhd_doc) [2, 0] = Inr (start nbhd_doc)"
    by (simp add: town_item_def start_def 10)
  have 12: "''7'' \<in> set good_sources" "''9'' \<in> set good_sources"
    by (simp_all add: good_sources_def)
  from 2 5 7 9 11 12 show ?thesis by simp
qed

text \<open>
  C2, as the code has it. Take a candidate that is in the tree and has no nested
  bulleted list, so that the loop does not skip it. When the neighbourhood check of
  lines 137 to 141 returns and the line of the candidate holds a bracketed citation
  marker of one or two digits that is in the allow-list (the markers that \<open>re.findall\<close>
  returns are exactly the markers the line holds, lemma \<open>findall_iff\<close>), the candidate is
  accepted: its line, ended by a line break, is appended to the result, and
  \<open>check_college_town_status\<close> is not called for it: the list of checked items is
  unchanged, whatever the Document Source would serve. When the neighbourhood check
  raises an error, the candidate is not accepted and the error ends the loop.
\<close>

theorem trusted_citation_accepts:
  assumes "cut_off (detached st) item = None"
    and "find_all (soup st) item (named ''ul'') = []"
  shows "(\<forall>doc removed s.
            rewrite_neighborhood (soup st) item = Inr (doc, removed) \<and>
            marker_in (text_at doc item) s \<and> s \<in> set good_sources \<longrightarrow>
            (\<exists>st'. town_item lower www st item = Inr st' \<and>
               towns st' = towns st @ [text_at doc item @ newline] \<and>
               checked st' = checked st \<and> soup st' = doc)) \<and>
         (\<forall>e town_list.
            rewrite_neighborhood (soup st) item = Inl e \<longrightarrow>
            town_item lower www st item = Inl e \<and>
            town_loop lower www st (item # town_list) = Inl e)"
proof -
  have accept: "\<exists>st'. town_item lower www st item = Inr st' \<and>
      towns st' = towns st @ [text_at doc item @ newline] \<and>
      checked st' = checked st \<and> soup st' = doc"
    if "rewrite_neighborhood (soup st) item = Inr (doc, removed)"
      "marker_in (text_at doc item) s" "s \<in> set good_sources" for doc removed s
  proof -
    have "s \<in> set (findall (text_at doc item))"
      using that(2) by (simp add: findall_iff)
    then have "filter (\<lambda>x. x \<in> set good_sources) (findall (text_at doc item)) \<noteq> []"
      and "findall (text_at doc item) \<noteq> []"
      using that(3) by (auto simp: filter_empty_conv)
    then show ?thesis
      using assms that(1) by (simp add: town_item_def Let_def)
  qed
  have raise: "town_item lower www st item = Inl e \<and>
      town_loop lower www st (item # town_list) = Inl e"
    if "rewrite_neighborhood (soup st) item = Inl e" for e town_list
    using assms that by (simp add: town_item_def)
  from accept raise show ?thesis by blast
qed

theorem trusted_citation_accepts_witness:
  "cut_off (detached (start ohio_doc)) [2, 0] = None \<and>
   find_all (soup (start ohio_doc)) [2, 0] (named ''ul'') = [] \<and>
   rewrite_neighborhood (soup (start ohio_doc)) [2, 0] = Inr (ohio_doc, []) \<and>
   text_at ohio_doc [2, 0] = ''T (U Uni)'' @ ''['' @ ''7'' @ '']'' @ [] \<and>
   marker_in (text_at ohio_doc [2, 0]) ''7'' \<and>
   ''7'' \<in> set good_sources \<and>
   (\<exists>st'. town_item ascii_lower unreachable (start ohio_doc) [2, 0] = Inr st' \<and>
      towns st' = [''T (U Uni)[7]'' @ newline] \<and> checked st' = [] \<and> soup st' = ohio_doc) \<and>
   cut_off (detached (start adjacent_doc)) [1, 0] = None \<and>
   find_all (soup (start adjacent_doc)) [1, 0] (named ''ul'') = [] \<and>
   rewrite_neighborhood (soup (start adjacent_doc)) [1, 0] = Inl AttributeError \<and>
   town_item ascii_lower unreachable (start adjacent_doc) [1, 0] = Inl AttributeError"
proof -
  have 1: "cut_off (detached (start ohio_doc)) [2, 0] = None"
    by (simp add: start_def)
  have 2: "find_all (soup (start ohio_doc)) [2, 0] (named ''ul'') = []"
    by (simp add: start_def ohio_doc_def nav_defs)
  have 3: "rewrite_neighborhood (soup (start ohio_doc)) [2, 0] = Inr (ohio_doc, [])"
    by (simp add: start_def rewrite_neighborhood_def parent_def previous_sibling_def)
      (simp add: ohio_doc_def nav_defs)
  have 4: "text_at ohio_doc [2, 0] = ''T (U Uni)[7]''"
    by (simp add: ohio_doc_def nav_defs)
  have 5: "text_at ohio_doc [2, 0] = ''T (U Uni)'' @ ''['' @ ''7'' @ '']'' @ []"
    by (simp add: 4)
  have 6: "''7'' \<in> set good_sources"
    by (simp add: good_sources_def)
  have "''7'' \<noteq> [] \<and> length ''7'' \<le> 2 \<and> (\<forall>c\<in>set ''7''. digit c)"
    by (simp add: digit_def)
  with 5 have 7: "marker_in (text_at ohio_doc [2, 0]) ''7''"
    unfolding marker_in_def by blast
  from trusted_citation_accepts[OF 1 2, where lower = ascii_lower and www = unreachable] 3 7 6
  have "\<exists>st'. town_item ascii_lower unreachable (start ohio_doc) [2, 0] = Inr st' \<and>
      towns st' = towns (start ohio_doc) @ [text_at ohio_doc [2, 0] @ newline] \<and>
      checked st' = checked (start ohio_doc) \<and> soup st' = ohio_doc"
    by blast
  then have 8: "\<exists>st'. town_item ascii_lower unreachable (start ohio_doc) [2, 0] = Inr st' \<and>
      towns st' = [''T (U Uni)[7]'' @ newline] \<and> checked st' = [] \<and> soup st' = ohio_doc"
    by (simp add: 4 start_def)
  have 9: "cut_off (detached (start adjacent_doc)) [1, 0] = None"
    by (simp add: start_def)
  have 10: "find_all (soup (start adjacent_doc)) [1, 0] (named ''ul'') = []"
    by (simp add: start_def adjacent_doc_def nav_defs)
  have 11: "rewrite_neighborhood (soup (start adjacent_doc)) [1, 0] = Inl AttributeError"
    by (simp add: start_def rewrite_neighborhood_def parent_def previous_sibling_def)
  from trusted_citation_accepts[OF 9 10, where lower = ascii_lower and www = unreachable] 11
  have 12: "town_item ascii_lower unreachable (start adjacent_doc) [1, 0] = Inl AttributeError"
    by blast
  from 1 2 3 5 6 7 8 9 10 11 12 show ?thesis by blast
qed

text \<open>
  C8. A list item that contains a nested numbered list, and no nested bulleted list, is
  not skipped: here it is accepted on its trusted citation and yields a record.
\<close>

theorem nested_ol_not_skipped:
  "find_all ol_doc [2, 0] (named ''ol'') = [[2, 0, 2]] \<and>
   town_item ascii_lower unreachable (start ol_doc) [2, 0] =
     Inr \<lparr>soup = ol_doc, detached = [], towns = [''T[7]Sub'' @ newline], checked = []\<rparr>"
proof -
  have 1: "find_all ol_doc [2, 0] (named ''ol'') = [[2, 0, 2]]"
    by (simp add: ol_doc_def nav_defs)
  have 2: "find_all ol_doc [2, 0] (named ''ul'') = []"
    by (simp add: ol_doc_def nav_defs)
  have 3: "rewrite_neighborhood ol_doc [2, 0] = Inr (ol_doc, [])"
    by (simp add: rewrite_neighborhood_def parent_def previous_sibling_def)
      (simp add: ol_doc_def nav_defs)
  have 4: "text_at ol_doc [2, 0] = ''T[7]Sub''"
    by (simp add: ol_doc_def nav_defs)
  have 5: "findall ''T[7]Sub'' = [''7'']"
    by (simp add: digit_def)
  have "town_item ascii_lower unreachable (start ol_doc) [2, 0] =
     Inr \<lparr>soup = ol_doc, detached = [], towns = [''T[7]Sub'' @ newline], checked = []\<rparr>"
    by (simp add: town_item_def start_def 2 3 4 digit_def good_sources_def)
  with 1 show ?thesis by simp
qed

text \<open>
  C8, as the code has it. A list item that contains a nested bulleted list (a \<open>ul\<close>
  element) is skipped: the state of the loop is unchanged, so the item is not
  classified, no record is appended and the checker is not called. Every list item
  inside it belongs to the same list of candidates and is visited on its own.
\<close>

theorem nested_ul_skipped:
  assumes "cut_off (detached st) item = None"
    and "find_all (soup st) item (named ''ul'') \<noteq> []"
  shows "town_item lower www st item = Inr st \<and>
     (\<forall>ul q. item \<in> set (find_all (soup st) ul (named ''li'')) \<and> strict_prefix item q \<and>
        name_at (soup st) q = Some ''li'' \<longrightarrow> q \<in> set (find_all (soup st) ul (named ''li'')))"
proof -
  have "town_item lower www st item = Inr st"
    using assms by (simp add: town_item_def)
  moreover have "q \<in> set (find_all (soup st) ul (named ''li''))"
    if "item \<in> set (find_all (soup st) ul (named ''li''))" "strict_prefix item q"
      "name_at (soup st) q = Some ''li''" for ul q
  proof -
    from that(1) have "strict_prefix ul item" by (simp add: find_all_set)
    from this that(2) have "strict_prefix ul q" by (rule prefix_order.less_trans)
    with that(3) show ?thesis by (simp add: find_all_set holds_named)
  qed
  ultimately show ?thesis by blast
qed

theorem nested_ul_skipped_witness:
  "cut_off (detached (start nbhd_doc)) [2, 0] = None \<and>
   find_all (soup (start nbhd_doc)) [2, 0] (named ''ul'') = [[2, 0, 2]] \<and>
   town_item ascii_lower unreachable (start nbhd_doc) [2, 0] = Inr (start nbhd_doc) \<and>
   [2, 0] \<in> set (find_all (soup (start nbhd_doc)) [2] (named ''li'')) \<and>
   strict_prefix [2, 0] [2, 0, 2, 0::nat] \<and>
   name_at (soup (start nbhd_doc)) [2, 0, 2, 0] = Some ''li'' \<and>
   [2, 0, 2, 0] \<in> set (find_all (soup (start nbhd_doc)) [2] (named ''li''))"
proof -
  have 1: "cut_off (detached (start nbhd_doc)) [2, 0] = None"
    by (simp add: start_def)
  have 2: "find_all (soup (start nbhd_doc)) [2, 0] (named ''ul'') = [[2, 0, 2]]"
    by (simp add: start_def nbhd_doc_def nav_defs)
  then have 3: "find_all (soup (start nbhd_doc)) [2, 0] (named ''ul'') \<noteq> []"
    by simp
  have 4: "[2, 0] \<in> set (find_all (soup (start nbhd_doc)) [2] (named ''li''))"
    by (simp add: find_all_set holds_named) (simp add: start_def nbhd_doc_def nav_defs)
  have 5: "strict_prefix [2, 0] [2, 0, 2, 0::nat]"
    by (simp add: strict_prefix_def)
  have 6: "name_at (soup (start nbhd_doc)) [2, 0, 2, 0] = Some ''li''"
    by (simp add: start_def nbhd_doc_def nav_defs)
  note inst = nested_ul_skipped[OF 1 3, where www = unreachable and lower = ascii_lower]
  from inst have "town_item ascii_lower unreachable (start nbhd_doc) [2, 0] = Inr (start nbhd_doc)"
    by blast
  moreover from inst 4 5 6 have "[2, 0, 2, 0] \<in> set (find_all (soup (start nbhd_doc)) [2] (named ''li''))"
    by blast
  ultimately show ?thesis using 1 2 4 5 6 by blast
qed

text \<open>
  C6. With a Document Source that serves nothing, the checker does not return false
  on the candidate \<open>N\<close>: it raises the error of the request. The Town Extractor does not
  catch it, so the run over the list ends with that error, and the line of the candidate
  accepted before it is lost with it.
\<close>

theorem fetch_failure_not_rejected:
  "unreachable (base_url @ ''/wiki/N'') = None \<and>
   check_college_town_status ascii_lower unreachable ohio_doc [2, 1] = Inl RequestException \<and>
   check_college_town_status ascii_lower unreachable ohio_doc [2, 1] \<noteq> Inr False \<and>
   get_towns_from_state ascii_lower unreachable ohio_doc [0] = Inl RequestException"
proof -
  have 1: "find_next ohio_doc [2, Suc 0] (named ''a'') = Some [2, Suc 0, 0]"
    by (simp add: ohio_doc_def nav_defs)
  have 2: "map_of (attrs (the (subtree ohio_doc [2, Suc 0, 0]))) ''href'' = Some ''/wiki/N''"
    by (simp add: ohio_doc_def nav_defs)
  have 3: "check_college_town_status ascii_lower unreachable ohio_doc [2, Suc 0] = Inl RequestException"
    by (simp add: check_college_town_status_def 1 2 unreachable_def)
  have 4: "find_next ohio_doc [0] (named ''ul'') = Some [2]"
    by (simp add: ohio_doc_def nav_defs)
  have 5: "find_all ohio_doc [2] (named ''li'') = [[2, 0], [2, Suc 0]]"
    by (simp add: ohio_doc_def nav_defs)
  have 6: "find_all ohio_doc [2, 0] (named ''ul'') = []"
    "find_all ohio_doc [2, Suc 0] (named ''ul'') = []"
    by (simp_all add: ohio_doc_def nav_defs)
  have 7: "rewrite_neighborhood ohio_doc [2, 0] = Inr (ohio_doc, [])"
    "rewrite_neighborhood ohio_doc [2, Suc 0] = Inr (ohio_doc, [])"
    by (simp_all add: rewrite_neighborhood_def parent_def previous_sibling_def)
      (simp_all add: ohio_doc_def nav_defs)
  have 8: "text_at ohio_doc [2, 0] = ''T (U Uni)[7]''" "text_at ohio_doc [2, Suc 0] = ''N (W Uni)''"
    by (simp_all add: ohio_doc_def nav_defs)
  have 9: "findall ''T (U Uni)[7]'' = [''7'']" "findall ''N (W Uni)'' = []"
    by (simp_all add: digit_def)
  have "get_towns_from_state ascii_lower unreachable ohio_doc [0] = Inl RequestException"
    by (simp add: get_towns_from_state_def 4 5 town_item_def 6 7 8 3 digit_def good_sources_def)
  with 3 show ?thesis by (simp add: unreachable_def)
qed

text \<open>
  C6, as the code has it. When the request for the candidate's article fails, the
  checker raises the error of the request. The loop over the candidates has no handler:
  a candidate that needs the checker passes the error on, and the loop ends with it
  whatever candidates follow.
\<close>

theorem fetch_failure_raises:
  assumes "find_next doc tag (named ''a'') = Some a"
    and "map_of (attrs (the (subtree doc a))) ''href'' = Some href"
    and "www (base_url @ href) = None"
  shows "check_college_town_status lower www doc tag = Inl RequestException \<and>
     (\<forall>st removed town_list.
        cut_off (detached st) tag = None \<and> find_all (soup st) tag (named ''ul'') = [] \<and>
        rewrite_neighborhood (soup st) tag = Inr (doc, removed) \<and>
        filter (\<lambda>x. x \<in> set good_sources) (findall (text_at doc tag)) = [] \<longrightarrow>
        town_loop lower www st (tag # town_list) = Inl RequestException)"
proof -
  have "check_college_town_status lower www doc tag = Inl RequestException"
    using assms by (simp add: check_college_town_status_def)
  then show ?thesis
    by (simp add: town_item_def)
qed

theorem fetch_failure_raises_witness:
  "find_next ohio_doc [2, 1] (named ''a'') = Some [2, 1, 0] \<and>
   map_of (attrs (the (subtree ohio_doc [2, 1, 0]))) ''href'' = Some ''/wiki/N'' \<and>
   unreachable (base_url @ ''/wiki/N'') = None \<and>
   check_college_town_status ascii_lower unreachable ohio_doc [2, 1] = Inl RequestException \<and>
   cut_off (detached (start ohio_doc)) [2, 1] = None \<and>
   find_all (soup (start ohio_doc)) [2, 1] (named ''ul'') = [] \<and>
   rewrite_neighborhood (soup (start ohio_doc)) [2, 1] = Inr (ohio_doc, []) \<and>
   filter (\<lambda>x. x \<in> set good_sources) (findall (text_at ohio_doc [2, 1])) = [] \<and>
   town_loop ascii_lower unreachable (start ohio_doc) [[2, 1], [2, 0]] = Inl RequestException"
proof -
  have 1: "find_next ohio_doc [2, 1] (named ''a'') = Some [2, 1, 0]"
    by (simp add: ohio_doc_def nav_defs)
  have 2: "map_of (attrs (the (subtree ohio_doc [2, 1, 0]))) ''href'' = Some ''/wiki/N''"
    by (simp add: ohio_doc_def nav_defs)
  have 3: "unreachable (base_url @ ''/wiki/N'') = None"
    by (simp add: unreachable_def)
  have 4: "cut_off (detached (start ohio_doc)) [2, 1] = None"
    by (simp add: start_def)
  have 5: "find_all (soup (start ohio_doc)) [2, 1] (named ''ul'') = []"
    by (simp add: start_def ohio_doc_def nav_defs)
  have 6: "rewrite_neighborhood (soup (start ohio_doc)) [2, 1] = Inr (ohio_doc, [])"
    by (simp add: start_def rewrite_neighborhood_def parent_def previous_sibling_def)
      (simp add: ohio_doc_def nav_defs)
  have 7: "filter (\<lambda>x. x \<in> set good_sources) (findall (text_at ohio_doc [2, 1])) = []"
    by (simp add: ohio_doc_def nav_defs)
  note inst = fetch_failure_raises[where www = unreachable and lower = ascii_lower, OF 1 2 3]
  from inst have 8: "check_college_town_status ascii_lower unreachable ohio_doc [2, 1] = Inl RequestException"
    by blast
  from inst 4 5 6 7
  have "town_loop ascii_lower unreachable (start ohio_doc) [[2, 1], [2, 0]] = Inl RequestException"
    by blast
  with 1 2 3 4 5 6 7 8 show ?thesis by blast
qed

text \<open>
  C9. In \<open>chicago_doc\<close> the city of Chicago, one of the big cities, is subdivided into two
  neighbourhoods, and both pass the nesting test of line 137. The first, \<open>Hyde Park\<close>, has
  no link of its own: line 141 rewrites the first link after the item, which is the link
  of the next neighbourhood. The record of \<open>Hyde Park\<close> does not carry the city, and the
  record of \<open>Rogers Park\<close>, whose link is rewritten a second time at its own turn, carries
  it twice.
\<close>

theorem neighborhood_without_link:
  "nested_under chicago_doc [2, 0, 2, 0] ''Chicago'' \<and>
   nested_under chicago_doc [2, 0, 2, 1] ''Chicago'' \<and>
   ''Chicago'' \<in> set big_cities \<and>
   text_at chicago_doc [2, 0, 2, 0] = ''Hyde Park (U Uni)[9]'' \<and>
   text_at chicago_doc [2, 0, 2, 1] = ''Rogers Park (V Uni)[9]'' \<and>
   find_next chicago_doc [2, 0, 2, 0] (named ''a'') = Some [2, 0, 2, 1, 0] \<and>
   get_towns_from_state ascii_lower unreachable chicago_doc [0] =
     Inr \<lparr>soup = set_string chicago_doc [2, 0, 2, 1, 0] ''Rogers Park, Chicago, Chicago'',
          detached = [([2, 0, 2, 1, 0],
             Tag ''a'' [(''href'', ''/wiki/R'')] [NavigableString ''Rogers Park'']),
            ([2, 0, 2, 1, 0],
             Tag ''a'' [(''href'', ''/wiki/R'')] [NavigableString ''Rogers Park, Chicago''])],
          towns = [''Hyde Park (U Uni)[9]'' @ newline,
                   ''Rogers Park, Chicago, Chicago (V Uni)[9]'' @ newline],
          checked = []\<rparr>"
proof -
  let ?a = "[2, 0, 2, Suc 0, 0::nat]"
  let ?doc1 = "set_string chicago_doc ?a ''Rogers Park, Chicago''"
  let ?doc2 = "set_string chicago_doc ?a ''Rogers Park, Chicago, Chicago''"
  let ?cut1 = "[(?a, Tag ''a'' [(''href'', ''/wiki/R'')] [NavigableString ''Rogers Park''])]"
  let ?cut2 = "[(?a, Tag ''a'' [(''href'', ''/wiki/R'')] [NavigableString ''Rogers Park, Chicago''])]"
  let ?st1 = "\<lparr>soup = ?doc1, detached = ?cut1,
      towns = [''Hyde Park (U Uni)[9]'' @ newline], checked = []\<rparr>"
  let ?st2 = "\<lparr>soup = ?doc2, detached = ?cut1 @ ?cut2,
      towns = [''Hyde Park (U Uni)[9]'' @ newline,
               ''Rogers Park, Chicago, Chicago (V Uni)[9]'' @ newline], checked = []\<rparr>"
  have n1: "nested_under chicago_doc [2, 0, 2, 0] ''Chicago''"
    unfolding nested_under_def
    by (rule exI[of _ "[2, 0, 2]"], rule exI[of _ "[2, 0, 1]"], rule exI[of _ "[2, 0, 0]"],
        rule exI[of _ "[2, 0]"], rule exI[of _ "[2, 0, 0]"])
      (simp add: chicago_doc_def nav_defs)
  have n2: "nested_under chicago_doc [2, 0, 2, Suc 0] ''Chicago''"
    unfolding nested_under_def
    by (rule exI[of _ "[2, 0, 2]"], rule exI[of _ "[2, 0, 1]"], rule exI[of _ "[2, 0, 0]"],
        rule exI[of _ "[2, 0]"], rule exI[of _ "[2, 0, 0]"])
      (simp add: chicago_doc_def nav_defs)
  have n3: "nested_under ?doc1 [2, 0, 2, Suc 0] ''Chicago''"
    unfolding nested_under_def
    by (rule exI[of _ "[2, 0, 2]"], rule exI[of _ "[2, 0, 1]"], rule exI[of _ "[2, 0, 0]"],
        rule exI[of _ "[2, 0]"], rule exI[of _ "[2, 0, 0]"])
      (simp add: chicago_doc_def nav_defs)
  have b: "''Chicago'' \<in> set big_cities"
    by (simp add: big_cities_def)
  have t: "text_at chicago_doc [2, 0, 2, 0] = ''Hyde Park (U Uni)[9]''"
    "text_at chicago_doc [2, 0, 2, Suc 0] = ''Rogers Park (V Uni)[9]''"
    by (simp_all add: chicago_doc_def nav_defs)
  have f: "find_next chicago_doc [2, 0, 2, 0] (named ''a'') = Some ?a"
    by (simp add: chicago_doc_def nav_defs)
  have 1: "find_next chicago_doc [0] (named ''ul'') = Some [2]"
    by (simp add: chicago_doc_def nav_defs)
  have 2: "find_all chicago_doc [2] (named ''li'') = [[2, 0], [2, 0, 2, 0], [2, 0, 2, Suc 0]]"
    by (simp add: chicago_doc_def nav_defs)
  have 3: "find_all chicago_doc [2, 0] (named ''ul'') \<noteq> []"
    by (simp add: chicago_doc_def nav_defs)
  have 4: "town_item ascii_lower unreachable (start chicago_doc) [2, 0] = Inr (start chicago_doc)"
    by (simp add: town_item_def start_def 3)
  have sub1: "the (subtree chicago_doc ?a) =
      Tag ''a'' [(''href'', ''/wiki/R'')] [NavigableString ''Rogers Park'']"
    by (simp add: chicago_doc_def BeautifulSoup_def)
  have u1: "find_all chicago_doc [2, 0, 2, 0] (named ''ul'') = []"
    by (simp add: chicago_doc_def nav_defs)
  have t1: "text_at ?doc1 [2, 0, 2, 0] = ''Hyde Park (U Uni)[9]''"
    by (simp add: chicago_doc_def nav_defs)
  have 5: "town_item ascii_lower unreachable (start chicago_doc) [2, 0, 2, 0] = Inr ?st1"
    using rewrite_neighborhood_nested[OF n1] b
    by (simp add: town_item_def start_def u1 f sub1 t1 digit_def good_sources_def)
  have f2: "find_next ?doc1 [2, 0, 2, Suc 0] (named ''a'') = Some ?a"
    by (simp add: chicago_doc_def nav_defs)
  have sub2: "the (subtree ?doc1 ?a) =
      Tag ''a'' [(''href'', ''/wiki/R'')] [NavigableString ''Rogers Park, Chicago'']"
    by (simp add: chicago_doc_def BeautifulSoup_def)
  have u2: "find_all ?doc1 [2, 0, 2, Suc 0] (named ''ul'') = []"
    by (simp add: chicago_doc_def nav_defs)
  have d: "set_string ?doc1 ?a ''Rogers Park, Chicago, Chicago'' = ?doc2"
    by (simp add: chicago_doc_def BeautifulSoup_def)
  have t2: "text_at ?doc2 [2, 0, 2, Suc 0] = ''Rogers Park, Chicago, Chicago (V Uni)[9]''"
    by (simp add: chicago_doc_def nav_defs)
  have c: "cut_off ?cut1 [2, 0, 2, Suc 0] = None"
    by (simp add: strict_prefix_def)
  have 6: "town_item ascii_lower unreachable ?st1 [2, 0, 2, 1] = Inr ?st2"
    using rewrite_neighborhood_nested[OF n3] b
    by (simp add: town_item_def c u2 f2 sub2 d t2 digit_def good_sources_def)
  have "town_loop ascii_lower unreachable (start chicago_doc) [[2, 0], [2, 0, 2, 0], [2, 0, 2, 1]] =
     Inr ?st2"
    by (simp only: town_loop.simps 4 5 6 sum.case)
  then have "get_towns_from_state ascii_lower unreachable chicago_doc [0] = Inr ?st2"
    using 2 by (simp add: get_towns_from_state_def 1 start_def)
  with n1 n2 b t f show ?thesis by simp
qed

text \<open>
  C5. The run of the Town Extractor over the list of \<open>nbhd_doc\<close> leaves a tree that
  differs from the tree before: the text of the link of \<open>District\<close> has become
  \<open>District, Columbus\<close>.
\<close>

theorem tree_is_mutated:
  "get_towns_from_state ascii_lower unreachable nbhd_doc [0] =
     Inr \<lparr>soup = nbhd_doc_rewritten,
          detached = [([2, 0, 2, 0, 0],
             Tag ''a'' [(''href'', ''/wiki/D'')] [NavigableString ''District''])],
          towns = [''District, Columbus (V Uni)[9]'' @ newline,
                   ''Eastside (X Uni)[9]'' @ newline],
          checked = []\<rparr> \<and>
   nbhd_doc_rewritten \<noteq> nbhd_doc"
proof -
  have "nbhd_doc_rewritten \<noteq> nbhd_doc"
    by (simp add: nbhd_doc_rewritten_def nbhd_doc_def BeautifulSoup_def)
  with nbhd_run show ?thesis by simp
qed

text \<open>
  C5, as the code has it. The loop over the candidates changes the tree only by the
  neighbourhood rewrite. One candidate leaves the tree as it was, or replaces the
  contents of the first link after it by the link's string followed by a comma and a
  big city; a candidate that is not nested under a big city leaves the tree as it was.
  The tree after a run of the Town Extractor is the tree before with a sequence of such
  replacements applied. The checker returns only its verdict.
\<close>

theorem tree_changed_only_by_rewrite:
  "(town_item lower www st item = Inr st' \<longrightarrow>
      soup st' = soup st \<or> link_rewrite (soup st) item (soup st')) \<and>
   (town_item lower www st item = Inr st' \<and>
      (\<forall>city. nested_under (soup st) item city \<longrightarrow> city \<notin> set big_cities) \<longrightarrow>
      soup st' = soup st) \<and>
   (get_towns_from_state lower www doc tag = Inr st'' \<longrightarrow> rewritten doc (soup st''))"
proof -
  have 1: "soup st' = soup st \<or> link_rewrite (soup st) item (soup st')"
    if "town_item lower www st item = Inr st'"
    using that by (rule town_item_soup)
  have 2: "soup st' = soup st"
    if "town_item lower www st item = Inr st'"
      "\<forall>city. nested_under (soup st) item city \<longrightarrow> city \<notin> set big_cities"
    using 1[OF that(1)] that(2) unfolding link_rewrite_def by blast
  have 3: "rewritten doc (soup st'')" if "get_towns_from_state lower www doc tag = Inr st''"
  proof -
    from that obtain ul where
      "town_loop lower www \<lparr>soup = doc, detached = [], towns = [], checked = []\<rparr>
         (find_all doc ul (named ''li'')) = Inr st''"
      by (auto simp: get_towns_from_state_def split: option.splits)
    from town_loop_rewritten[OF this] show ?thesis by simp
  qed
  from 1 2 3 show ?thesis by blast
qed

theorem tree_changed_only_by_rewrite_witness:
  "town_item ascii_lower unreachable (start nbhd_doc) [2, 0, 2, 0] =
     Inr \<lparr>soup = nbhd_doc_rewritten,
          detached = [([2, 0, 2, 0, 0],
             Tag ''a'' [(''href'', ''/wiki/D'')] [NavigableString ''District''])],
          towns = [''District, Columbus (V Uni)[9]'' @ newline], checked = []\<rparr> \<and>
   link_rewrite nbhd_doc [2, 0, 2, 0] nbhd_doc_rewritten \<and>
   nested_under nbhd_doc [2, 1, 2, 0] ''Smallville'' \<and> ''Smallville'' \<notin> set big_cities \<and>
   town_item ascii_lower unreachable (start nbhd_doc) [2, 1, 2, 0] =
     Inr \<lparr>soup = nbhd_doc, detached = [],
          towns = [''Eastside (X Uni)[9]'' @ newline], checked = []\<rparr> \<and>
   get_towns_from_state ascii_lower unreachable nbhd_doc [0] =
     Inr \<lparr>soup = nbhd_doc_rewritten,
          detached = [([2, 0, 2, 0, 0],
             Tag ''a'' [(''href'', ''/wiki/D'')] [NavigableString ''District''])],
          towns = [''District, Columbus (V Uni)[9]'' @ newline,
                   ''Eastside (X Uni)[9]'' @ newline],
          checked = []\<rparr> \<and>
   rewritten nbhd_doc nbhd_doc_rewritten"
proof -
  let ?st1 = "\<lparr>soup = nbhd_doc_rewritten,
      detached = [([2, 0, 2, 0, 0::nat], Tag ''a'' [(''href'', ''/wiki/D'')] [NavigableString ''District''])],
      towns = [''District, Columbus (V Uni)[9]'' @ newline], checked = []\<rparr>"
  let ?st2 = "\<lparr>soup = nbhd_doc, detached = [],
      towns = [''Eastside (X Uni)[9]'' @ newline], checked = []\<rparr>"
  let ?final = "\<lparr>soup = nbhd_doc_rewritten,
      detached = [([2, 0, 2, 0, 0::nat], Tag ''a'' [(''href'', ''/wiki/D'')] [NavigableString ''District''])],
      towns = [''District, Columbus (V Uni)[9]'' @ newline, ''Eastside (X Uni)[9]'' @ newline],
      checked = []\<rparr>"
  have 1: "town_item ascii_lower unreachable (start nbhd_doc) [2, 0, 2, 0] = Inr ?st1"
    using district_item by (simp add: district_rewritten)
  have 2: "town_item ascii_lower unreachable (start nbhd_doc) [2, 1, 2, 0] = Inr ?st2"
    using eastside_item by simp
  have 3: "get_towns_from_state ascii_lower unreachable nbhd_doc [0] = Inr ?final"
    by (rule nbhd_run)
  have 4: "nested_under nbhd_doc [2, 1, 2, 0] ''Smallville''"
    using smallville_nested by simp
  have 5: "''Smallville'' \<notin> set big_cities"
    by (simp add: big_cities_def)
  have 6: "nbhd_doc_rewritten \<noteq> nbhd_doc"
    by (simp add: nbhd_doc_rewritten_def nbhd_doc_def BeautifulSoup_def)
  have "soup ?st1 = soup (start nbhd_doc) \<or>
      link_rewrite (soup (start nbhd_doc)) [2, 0, 2, 0] (soup ?st1)"
    using tree_changed_only_by_rewrite[where lower = ascii_lower and www = unreachable
        and st = "start nbhd_doc" and item = "[2, 0, 2, 0]" and st' = ?st1] 1
    by blast
  with 6 have 7: "link_rewrite nbhd_doc [2, 0, 2, 0] nbhd_doc_rewritten"
    by (simp add: start_def)
  have "\<forall>city. nested_under (soup (start nbhd_doc)) [2, 1, 2, 0] city \<longrightarrow>
      city \<notin> set big_cities"
    using nested_under_unique[OF 4] 5 by (auto simp: start_def)
  then have "soup ?st2 = soup (start nbhd_doc)"
    using tree_changed_only_by_rewrite[where lower = ascii_lower and www = unreachable
        and st = "start nbhd_doc" and item = "[2, 1, 2, 0]" and st' = ?st2] 2
    by blast
  have 8: "rewritten nbhd_doc nbhd_doc_rewritten"
    using tree_changed_only_by_rewrite[where lower = ascii_lower and www = unreachable
        and doc = nbhd_doc and tag = "[0]" and st'' = ?final] 3
    by simp
  from 1 7 4 5 2 3 8 show ?thesis by blast
qed

section \<open>The claim about the Pipeline Driver\<close>

text \<open>
  C4. A run reads the documents that the Document Source serves and prints its progress;
  it leaves the served documents as they are, and every run parses a tree of its own.
  A run always ends, and a second run, started in the world the first run left behind,
  ends with the same result as the first: the same output stream, line by line, or the
  same error.
\<close>

theorem second_run_agrees:
  "(\<exists>data w'. scrape_university_towns lower w = Some (data, w')) \<and>
   (\<forall>data w'. scrape_university_towns lower w = Some (data, w') \<longrightarrow>
      internet w' = internet w \<and> (\<exists>w''. scrape_university_towns lower w' = Some (data, w'')))"
proof -
  have "internet w' = internet w \<and> (\<exists>w''. scrape_university_towns lower w' = Some (data, w''))"
    if first: "scrape_university_towns lower w = Some (data, w')" for data w'
  proof (cases "internet w url")
    case None
    with first have "data = Inl RequestException" "w' = w"
      by (simp_all add: scrape_university_towns_def)
    with None show ?thesis
      by (simp add: scrape_university_towns_def)
  next
    case (Some contents)
    let ?doc = "BeautifulSoup contents"
    show ?thesis
    proof (cases "find_bs ?doc [] (named_with ''span'' ''id'' ''College_towns_in_the_United_States'')")
      case None
      with Some first have "data = Inl AttributeError" "w' = w"
        by (simp_all add: scrape_university_towns_def)
      with Some None show ?thesis
        by (simp add: scrape_university_towns_def)
    next
      case (Some tag)
      with \<open>internet w url = Some contents\<close> first
      have run: "state_loop lower w ?doc (find_next ?doc tag (named ''h3'')) [] = Some (data, w')"
        by (simp add: scrape_university_towns_def Let_def)
      from state_loop_frame[OF run]
      have same: "internet w' = internet w"
        and again: "\<exists>v'. state_loop lower w' ?doc (find_next ?doc tag (named ''h3'')) [] = Some (data, v')"
        by simp_all
      from again same Some \<open>internet w url = Some contents\<close>
      have "\<exists>w''. scrape_university_towns lower w' = Some (data, w'')"
        by (simp add: scrape_university_towns_def Let_def)
      with same show ?thesis by simp
    qed
  qed
  moreover have "\<exists>data w'. scrape_university_towns lower w = Some (data, w')"
    using scrape_total[of lower w] by auto
  ultimately show ?thesis by blast
qed

theorem second_run_agrees_witness:
  "scrape_university_towns ascii_lower list_world =
     Some (Inr [''Ohio[edit]'' @ newline, ''Athens (Ohio University)[7]'' @ newline],
           list_world\<lparr>stdout := [''Checking college towns in Ohio...'']\<rparr>) \<and>
   internet (list_world\<lparr>stdout := [''Checking college towns in Ohio...'']\<rparr>) =
     internet list_world \<and>
   (\<exists>w''. scrape_university_towns ascii_lower (list_world\<lparr>stdout := [''Checking college towns in Ohio...'']\<rparr>) =
      Some (Inr [''Ohio[edit]'' @ newline, ''Athens (Ohio University)[7]'' @ newline], w''))"
proof -
  let ?doc = "BeautifulSoup list_page"
  let ?w1 = "list_world\<lparr>stdout := [''Checking college towns in Ohio...'']\<rparr>"
  let ?st = "\<lparr>soup = ?doc, detached = [], towns = [''Athens (Ohio University)[7]'' @ newline],
      checked = []\<rparr>"
  have 0: "stdout list_world = []"
    by (simp add: list_world_def)
  have 1: "internet list_world url = Some list_page"
    by (simp add: list_world_def)
  have 2: "find_bs ?doc [] (named_with ''span'' ''id'' ''College_towns_in_the_United_States'') =
      Some [0, 0]"
    by (simp add: list_page_def nav_defs)
  have 3: "find_next ?doc [0, 0] (named ''h3'') = Some [Suc 0]"
    by (simp add: list_page_def nav_defs)
  have 4: "find_previous_sibling ?doc [Suc 0] (named ''h2'') = Some [0]"
    "find_previous_sibling ?doc [5] (named ''h2'') = Some [4]"
    by (simp_all add: list_page_def nav_defs upt_rec)
  have 5: "find_bs ?doc [0] (named ''span'') = Some [0, 0]"
    "find_bs ?doc [4] (named ''span'') = Some [4, 0]"
    by (simp_all add: list_page_def nav_defs)
  have 6: "text_at ?doc [0, 0] = ''College towns in the United States''"
    "text_at ?doc [4, 0] = ''See also''" "text_at ?doc [Suc 0] = ''Ohio[edit]''"
    by (simp_all add: list_page_def nav_defs)
  have 7: "progress ''Ohio[edit]'' = ''Checking college towns in Ohio...''"
    by (simp add: progress_def)
  have 8: "find_next ?doc [Suc 0] (named ''ul'') = Some [3]"
    "find_all ?doc [3] (named ''li'') = [[3, 0]]"
    "find_all ?doc [3, 0] (named ''ul'') = []"
    "text_at ?doc [3, 0] = ''Athens (Ohio University)[7]''"
    by (simp_all add: list_page_def nav_defs)
  have 9: "rewrite_neighborhood ?doc [3, 0] = Inr (?doc, [])"
    by (simp add: rewrite_neighborhood_def parent_def previous_sibling_def)
      (simp add: list_page_def nav_defs)
  have 10: "get_towns_from_state ascii_lower (internet list_world) ?doc [Suc 0] = Inr ?st"
    by (simp add: get_towns_from_state_def 8 town_item_def 9 digit_def good_sources_def)
  have 11: "find_next ?doc [Suc 0] (named ''h3'') = Some [5]"
    by (simp add: list_page_def nav_defs)
  have 12: "state_loop ascii_lower ?w1 ?doc (Some [5])
        [''Ohio[edit]'' @ newline, ''Athens (Ohio University)[7]'' @ newline] =
      Some (Inr [''Ohio[edit]'' @ newline, ''Athens (Ohio University)[7]'' @ newline], ?w1)"
    by (simp add: state_loop.simps[of ascii_lower _ _ "Some [5]"] 4 5 6)
  have 13: "state_loop ascii_lower list_world ?doc (Some [Suc 0]) [] =
      Some (Inr [''Ohio[edit]'' @ newline, ''Athens (Ohio University)[7]'' @ newline], ?w1)"
    using 12 by (simp add: state_loop.simps[of ascii_lower _ _ "Some [Suc 0]"] 4 5 6 7 10 11 0 Let_def)
  have run: "scrape_university_towns ascii_lower list_world =
      Some (Inr [''Ohio[edit]'' @ newline, ''Athens (Ohio University)[7]'' @ newline], ?w1)"
    by (simp add: scrape_university_towns_def Let_def 1 2 3 13)
  from second_run_agrees[of ascii_lower list_world] run show ?thesis by simp
qed

end
